theory Spec2Isabelle
  imports Complex_Main "HOL-Library.Sublist" "HOL-Library.Log_Nat" "HOL-Library.Code_Target_Numeral"
begin

section \<open>JavaScript strings\<close>

text \<open>
  A JavaScript string is a sequence of UTF-16 code units; \<open>length\<close>, indexing and the
  regular expressions of the program (none carries the \<open>u\<close> flag) all count code
  units. A string is therefore modelled as a list of code units, each a natural
  number. \<open>str\<close> turns an ASCII literal of the theory into such a list.
\<close>

type_synonym jstring = "nat list"

definition str :: "string \<Rightarrow> jstring" where
  "str s = map of_char s"

text \<open>\<open>\s\<close> of a regular expression and the characters \<open>trim\<close> removes: WhiteSpace and
  LineTerminator of ECMAScript.\<close>

definition isWhiteSpace :: "nat \<Rightarrow> bool" where
  "isWhiteSpace c \<longleftrightarrow>
     c = 9 \<or> c = 10 \<or> c = 11 \<or> c = 12 \<or> c = 13 \<or> c = 32 \<or> c = 160 \<or> c = 5760 \<or>
     (8192 \<le> c \<and> c \<le> 8202) \<or> c = 8232 \<or> c = 8233 \<or> c = 8239 \<or> c = 8287 \<or>
     c = 12288 \<or> c = 65279"

definition isDigit :: "nat \<Rightarrow> bool" where
  "isDigit c \<longleftrightarrow> 48 \<le> c \<and> c \<le> 57"

text \<open>\<open>String.prototype.trim\<close>.\<close>

definition trim :: "jstring \<Rightarrow> jstring" where
  "trim s = rev (dropWhile isWhiteSpace (rev (dropWhile isWhiteSpace s)))"

text \<open>\<open>s.startsWith(p)\<close> is \<open>prefix p s\<close>; \<open>s.includes(p)\<close> is \<open>sublist p s\<close> (a contiguous
  occurrence).\<close>

definition startsWith :: "jstring \<Rightarrow> jstring \<Rightarrow> bool" where
  "startsWith s p = prefix p s"

definition str_includes :: "jstring \<Rightarrow> jstring \<Rightarrow> bool" where
  "str_includes s p = sublist p s"

text \<open>\<open>s.split("\n")\<close>: the pieces between the occurrences of one separator code unit
  (always at least one piece).\<close>

fun split_on :: "nat \<Rightarrow> jstring \<Rightarrow> jstring list" where
  "split_on sep [] = [[]]"
| "split_on sep (c # cs) =
     (if c = sep then [] # split_on sep cs
      else (case split_on sep cs of
              [] \<Rightarrow> [[c]]
            | p # ps \<Rightarrow> (c # p) # ps))"

text \<open>\<open>xs.join(sep)\<close>.\<close>

fun join :: "jstring \<Rightarrow> jstring list \<Rightarrow> jstring" where
  "join sep [] = []"
| "join sep [x] = x"
| "join sep (x # y # ys) = x @ sep @ join sep (y # ys)"

section \<open>The regular expressions of the program\<close>

text \<open>
  The program's regular expressions use literals, character classes, the quantifiers
  \<open>*\<close>, \<open>+\<close>, \<open>*?\<close> and \<open>{n}\<close> on a single character class, \<open>?\<close> on a group,
  capture groups and the anchors \<open>^\<close> and \<open>$\<close> (no flag but \<open>g\<close>). They are kept as
  data, and one backtracking matcher gives them the meaning ECMAScript gives them.
\<close>

datatype citem = Ch nat | Rng nat nat | Space | NonSpace | Digit

datatype cclass = OneOf "citem list" | NoneOf "citem list"

fun in_item :: "citem \<Rightarrow> nat \<Rightarrow> bool" where
  "in_item (Ch a) c = (c = a)"
| "in_item (Rng a b) c = (a \<le> c \<and> c \<le> b)"
| "in_item Space c = isWhiteSpace c"
| "in_item NonSpace c = (\<not> isWhiteSpace c)"
| "in_item Digit c = isDigit c"

fun in_class :: "cclass \<Rightarrow> nat \<Rightarrow> bool" where
  "in_class (OneOf items) c = list_ex (\<lambda>i. in_item i c) items"
| "in_class (NoneOf items) c = (\<not> list_ex (\<lambda>i. in_item i c) items)"

datatype re =
    Eps
  | Lit jstring
  | Star cclass
  | Plus cclass
  | LazyStar cclass
  | Rep nat cclass
  | Opt re
  | Seq re re
  | Cap nat re
  | Bol
  | Eol

text \<open>A sequence \<open>r\<^sub>1 r\<^sub>2 \<dots> r\<^sub>n\<close>.\<close>

definition cat :: "re list \<Rightarrow> re" where
  "cat rs = foldr Seq rs Eps"

text \<open>
  The state of a match in progress: the index reached in the subject string, the
  text from there on, and the capture groups set so far (an unset group is
  \<open>undefined\<close> in JavaScript, \<open>None\<close> here).
\<close>

record mstate =
  pos :: nat
  rest :: jstring
  caps :: "nat \<rightharpoonup> jstring"

definition advance :: "nat \<Rightarrow> mstate \<Rightarrow> mstate" where
  "advance k st = st\<lparr>pos := pos st + k, rest := drop k (rest st)\<rparr>"

text \<open>The length of the longest run of characters of a class at the front.\<close>

definition run :: "cclass \<Rightarrow> jstring \<Rightarrow> nat" where
  "run c s = length (takeWhile (in_class c) s)"

text \<open>
  \<open>ms r st\<close> lists every way \<open>r\<close> can match at \<open>st\<close>, in the order in which a
  backtracking matcher tries them: a greedy quantifier tries the longest run first, a
  lazy one the shortest, and an optional group is tried before it is skipped. The
  head of the list is the match ECMAScript reports.
\<close>

primrec ms :: "re \<Rightarrow> mstate \<Rightarrow> mstate list" where
  "ms Eps st = [st]"
| "ms (Lit l) st = (if prefix l (rest st) then [advance (length l) st] else [])"
| "ms (Star c) st = map (\<lambda>k. advance k st) (rev [0..<Suc (run c (rest st))])"
| "ms (Plus c) st = map (\<lambda>k. advance k st) (rev [1..<Suc (run c (rest st))])"
| "ms (LazyStar c) st = map (\<lambda>k. advance k st) [0..<Suc (run c (rest st))]"
| "ms (Rep n c) st = (if n \<le> run c (rest st) then [advance n st] else [])"
| "ms (Opt r) st = ms r st @ [st]"
| "ms (Seq r1 r2) st = concat (map (ms r2) (ms r1 st))"
| "ms (Cap i r) st =
     map (\<lambda>st'. st'\<lparr>caps := (caps st')(i \<mapsto> take (length (rest st) - length (rest st')) (rest st))\<rparr>)
       (ms r st)"
| "ms Bol st = (if pos st = 0 then [st] else [])"
| "ms Eol st = (if rest st = [] then [st] else [])"

definition start_at :: "nat \<Rightarrow> jstring \<Rightarrow> mstate" where
  "start_at p s = \<lparr>pos = p, rest = s, caps = Map.empty\<rparr>"

text \<open>
  \<open>search r p s\<close>: the leftmost match of \<open>r\<close> in \<open>s\<close>, where \<open>s\<close> is the part of the
  subject string from index \<open>p\<close> on. The result is the text skipped before the
  match and the state at the end of the match.
\<close>

fun search :: "re \<Rightarrow> nat \<Rightarrow> jstring \<Rightarrow> (jstring \<times> mstate) option" where
  "search r p [] =
     (case ms r (start_at p []) of [] \<Rightarrow> None | m # _ \<Rightarrow> Some ([], m))"
| "search r p (c # cs) =
     (case ms r (start_at p (c # cs)) of
        m # _ \<Rightarrow> Some ([], m)
      | [] \<Rightarrow> (case search r (Suc p) cs of
                 None \<Rightarrow> None
               | Some (skipped, m) \<Rightarrow> Some (c # skipped, m)))"

text \<open>\<open>s.match(r)\<close> and \<open>r.test(s)\<close> for a regular expression without the \<open>g\<close> flag.\<close>

definition match :: "jstring \<Rightarrow> re \<Rightarrow> mstate option" where
  "match s r = map_option snd (search r 0 s)"

definition test :: "re \<Rightarrow> jstring \<Rightarrow> bool" where
  "test r s = (search r 0 s \<noteq> None)"

text \<open>
  The loop \<open>while ((m = r.exec(s)) !== null) { \<dots> }\<close> over a regular expression with
  the \<open>g\<close> flag: each \<open>exec\<close> searches from \<open>lastIndex\<close>, which a match moves to its
  end. The result is the list of the matches in order. When a match is empty and
  leaves \<open>lastIndex\<close> where it was, the next \<open>exec\<close> finds the same match again and
  the loop of the program never ends: that is the result \<open>None\<close>.
\<close>

function execAll :: "re \<Rightarrow> nat \<Rightarrow> jstring \<Rightarrow> mstate list option" where
  "execAll r p s =
     (case search r p s of
        None \<Rightarrow> Some []
      | Some (skipped, m) \<Rightarrow>
          if length (rest m) < length s
          then map_option (\<lambda>found. m # found) (execAll r (pos m) (rest m))
          else None)"
  by pat_completeness auto
termination
  by (relation "measure (\<lambda>(r, p, s). length s)") auto

text \<open>
  \<open>s.replace(r, f)\<close> for a regular expression with the \<open>g\<close> flag: every match, found
  from left to right, is replaced by \<open>f\<close> of the match. After an empty match the
  search moves on by one code unit, which is kept.
\<close>

function replaceAll :: "re \<Rightarrow> (mstate \<Rightarrow> jstring) \<Rightarrow> nat \<Rightarrow> jstring \<Rightarrow> jstring" where
  "replaceAll r f p s =
     (case search r p s of
        None \<Rightarrow> s
      | Some (skipped, m) \<Rightarrow>
          if length (rest m) < length s
          then skipped @ f m @ replaceAll r f (pos m) (rest m)
          else (case s of
                  [] \<Rightarrow> f m
                | c # cs \<Rightarrow> f m @ c # replaceAll r f (Suc p) cs))"
  by pat_completeness auto
termination
  by (relation "measure (\<lambda>(r, f, p, s). length s)") auto

declare execAll.simps [simp del]
declare replaceAll.simps [simp del]

section \<open>JavaScript numbers\<close>

text \<open>
  A JavaScript number is an IEEE 754 double: \<open>NaN\<close>, an infinity, or a finite value,
  kept here as the rational number it denotes. An operation whose exact result need
  not be a double rounds it to the nearest double, a tie to the even significand,
  and to an infinity beyond the largest double (\<open>round_double\<close>). \<open>-0\<close> is \<open>0\<close>: the
  program never divides by a number and \<open>-0 || 0\<close>, \<open>String(-0)\<close> and
  \<open>String.fromCharCode(-0)\<close> are those of \<open>0\<close>.
\<close>

datatype jsnum = NaN | PosInf | NegInf | Fin rat

text \<open>Powers of 2 and of 10 with an integer exponent.\<close>

definition pow2 :: "int \<Rightarrow> rat" where
  "pow2 e = (if 0 \<le> e then 2 ^ nat e else 1 / 2 ^ nat (- e))"

definition pow10 :: "int \<Rightarrow> rat" where
  "pow10 e = (if 0 \<le> e then 10 ^ nat e else 1 / 10 ^ nat (- e))"

text \<open>The binary exponent of a positive rational \<open>q\<close>: the \<open>e\<close> with
  \<open>2\<^sup>e \<le> q < 2\<^sup>e\<^sup>+\<^sup>1\<close>.\<close>

definition ilog2 :: "rat \<Rightarrow> int" where
  "ilog2 q =
     (let (a, b) = quotient_of q;
          d = int (floorlog 2 (nat a)) - int (floorlog 2 (nat b))
      in if pow2 d \<le> q then d else d - 1)"

text \<open>The nearest integer, the even one of two that are equally near.\<close>

definition round_even :: "rat \<Rightarrow> int" where
  "round_even m =
     (let f = \<lfloor>m\<rfloor>; r = m - of_int f
      in if r < 1 / 2 then f else if 1 / 2 < r then f + 1 else if even f then f else f + 1)"

text \<open>
  The double nearest to a rational. The doubles around \<open>q\<close> are the multiples of the
  unit \<open>2\<^sup>e\<^sup>-\<^sup>5\<^sup>2\<close>, where \<open>e\<close> is the binary exponent of \<open>q\<close> and at least \<open>-1022\<close> (below
  that the doubles are subnormal and keep the unit \<open>2\<^sup>-\<^sup>1\<^sup>0\<^sup>7\<^sup>4\<close>); a result of \<open>2\<^sup>1\<^sup>0\<^sup>2\<^sup>4\<close> or
  more is an infinity.
\<close>

definition round_double :: "rat \<Rightarrow> jsnum" where
  "round_double q =
     (if q = 0 then Fin 0
      else
        (let a = \<bar>q\<bar>;
             u = pow2 (max (ilog2 a) (- 1022) - 52);
             v = of_int (round_even (a / u)) * u
         in if pow2 1024 \<le> v then (if q < 0 then NegInf else PosInf)
            else Fin (if q < 0 then - v else v)))"


text \<open>\<open>x || 0\<close> on a number: \<open>NaN\<close> and \<open>0\<close> are falsy.\<close>

fun or0 :: "jsnum \<Rightarrow> jsnum" where
  "or0 NaN = Fin 0"
| "or0 (Fin q) = Fin q"
| "or0 PosInf = PosInf"
| "or0 NegInf = NegInf"

text \<open>\<open>x / d\<close> and \<open>x % d\<close> for a positive finite constant \<open>d\<close>. The quotient is
  rounded; the remainder has the sign of the dividend and is exact (the remainder
  of two doubles is a double).\<close>

fun num_div :: "jsnum \<Rightarrow> rat \<Rightarrow> jsnum" where
  "num_div (Fin q) d = round_double (q / d)"
| "num_div x d = x"

definition trunc :: "rat \<Rightarrow> int" where
  "trunc q = (if 0 \<le> q then \<lfloor>q\<rfloor> else \<lceil>q\<rceil>)"

fun num_rem :: "jsnum \<Rightarrow> rat \<Rightarrow> jsnum" where
  "num_rem (Fin q) d = Fin (q - d * of_int (trunc (q / d)))"
| "num_rem x d = NaN"

text \<open>\<open>Math.floor\<close>.\<close>

fun Math_floor :: "jsnum \<Rightarrow> jsnum" where
  "Math_floor (Fin q) = Fin (of_int \<lfloor>q\<rfloor>)"
| "Math_floor x = x"

text \<open>The decimal digits of a natural number.\<close>

fun digits_of :: "nat \<Rightarrow> jstring" where
  "digits_of n = (if n < 10 then [48 + n] else digits_of (n div 10) @ [48 + n mod 10])"

declare digits_of.simps [simp del]

text \<open>
  \<open>String(x)\<close> is \<open>Number::toString\<close>. It writes a finite \<open>x\<close> with the least number \<open>k\<close>
  of significant digits that still reads back as \<open>x\<close>: digits \<open>s\<close> and a decimal
  exponent \<open>n\<close> with \<open>x\<close> the double nearest to \<open>s \<times> 10\<^sup>n\<^sup>-\<^sup>k\<close>, and of several such \<open>s\<close> the
  one nearest to \<open>x\<close>.

  \<open>decimal_exp q\<close> is the \<open>n\<close> with \<open>10\<^sup>n\<^sup>-\<^sup>1 \<le> q < 10\<^sup>n\<close>; \<open>neighbours q k\<close> are the two
  numbers of \<open>k\<close> significant digits around \<open>q\<close>, the nearer one first; \<open>shortest_digits\<close>
  takes the first that reads back, for the least \<open>k\<close> (17 digits always do for a
  double).
\<close>

definition decimal_exp :: "rat \<Rightarrow> int" where
  "decimal_exp q =
     (let (a, b) = quotient_of q;
          d = int (floorlog 10 (nat a)) - int (floorlog 10 (nat b))
      in if pow10 d \<le> q then d + 1 else d)"

definition neighbours :: "rat \<Rightarrow> nat \<Rightarrow> (nat \<times> int) list" where
  "neighbours q k =
     (let n = decimal_exp q;
          s = nat \<lfloor>q / pow10 (n - int k)\<rfloor>;
          below = (s, n);
          above = (if Suc s = 10 ^ k then (10 ^ (k - 1), n + 1) else (Suc s, n));
          nearer = (q - of_nat s * pow10 (n - int k) < of_nat (Suc s) * pow10 (n - int k) - q);
          tie = (q - of_nat s * pow10 (n - int k) = of_nat (Suc s) * pow10 (n - int k) - q)
      in if nearer \<or> (tie \<and> even s) then [below, above] else [above, below])"

definition reads_back :: "rat \<Rightarrow> nat \<Rightarrow> nat \<times> int \<Rightarrow> bool" where
  "reads_back q k c = (case c of (s, n) \<Rightarrow> round_double (of_nat s * pow10 (n - int k)) = Fin q)"

definition shortest_digits :: "rat \<Rightarrow> nat \<times> nat \<times> int" where
  "shortest_digits q =
     (case concat (map (\<lambda>k. map (Pair k) (filter (reads_back q k) (neighbours q k))) [1..<18]) of
        c # _ \<Rightarrow> c
      | [] \<Rightarrow> (17, hd (neighbours q 17)))"

text \<open>
  The string of a positive number. An integer up to \<open>2\<^sup>5\<^sup>3\<close> is written with all its
  digits (no shorter numeral reads back as it). Otherwise the digits are laid out
  as \<open>Number::toString\<close> prescribes: an integer below \<open>10\<^sup>2\<^sup>1\<close> with zeros at its end, a
  number with a decimal point, a small number with zeros after \<open>0.\<close> (down to
  \<open>10\<^sup>-\<^sup>6\<close>), and exponent notation for the rest.
\<close>

definition positive_string :: "rat \<Rightarrow> jstring" where
  "positive_string q =
     (if q = of_int \<lfloor>q\<rfloor> \<and> q \<le> 2 ^ 53 then digits_of (nat \<lfloor>q\<rfloor>)
      else
        (case shortest_digits q of
           (k, s, n) \<Rightarrow>
             (let ds = digits_of s
              in if int k \<le> n \<and> n \<le> 21 then ds @ replicate (nat (n - int k)) 48
                 else if 0 < n \<and> n \<le> 21 then take (nat n) ds @ [46] @ drop (nat n) ds
                 else if - 6 < n \<and> n \<le> 0 then [48, 46] @ replicate (nat (- n)) 48 @ ds
                 else
                   (if k = 1 then ds else [hd ds, 46] @ tl ds) @
                   [101, if 0 < n - 1 then 43 else 45] @ digits_of (nat \<bar>n - 1\<bar>))))"

fun String_num :: "jsnum \<Rightarrow> jstring" where
  "String_num NaN = str ''NaN''"
| "String_num PosInf = str ''Infinity''"
| "String_num NegInf = str ''-Infinity''"
| "String_num (Fin q) = (if q < 0 then 45 # positive_string (- q) else positive_string q)"

text \<open>\<open>s.padStart(n, "0")\<close>.\<close>

definition padStart :: "jstring \<Rightarrow> nat \<Rightarrow> nat \<Rightarrow> jstring" where
  "padStart s n fill = replicate (n - length s) fill @ s"

text \<open>The value of a string of digits in a radix; \<open>digit_val\<close> is the value of one digit.\<close>

definition digit_val :: "nat \<Rightarrow> nat" where
  "digit_val c =
     (if 48 \<le> c \<and> c \<le> 57 then c - 48
      else if 97 \<le> c \<and> c \<le> 122 then c - 87
      else c - 55)"

definition digits_val :: "nat \<Rightarrow> jstring \<Rightarrow> nat" where
  "digits_val radix ds = foldl (\<lambda>a c. radix * a + digit_val c) 0 ds"

definition isHexDigit :: "nat \<Rightarrow> bool" where
  "isHexDigit c \<longleftrightarrow> (48 \<le> c \<and> c \<le> 57) \<or> (97 \<le> c \<and> c \<le> 102) \<or> (65 \<le> c \<and> c \<le> 70)"

text \<open>An optional sign at the front: the sign and the text after it.\<close>

definition take_sign :: "jstring \<Rightarrow> bool \<times> jstring" where
  "take_sign s =
     (case s of
        c # cs \<Rightarrow> if c = 45 then (True, cs) else if c = 43 then (False, cs) else (False, s)
      | [] \<Rightarrow> (False, s))"

text \<open>
  \<open>parseInt(s)\<close> with no radix: leading white space is skipped, a sign is read, a
  prefix \<open>0x\<close> or \<open>0X\<close> selects radix 16, and the longest run of digits is the value,
  rounded to a double; no digit gives \<open>NaN\<close>.
\<close>

definition parseInt :: "jstring \<Rightarrow> jsnum" where
  "parseInt s =
     (let (neg, t) = take_sign (dropWhile isWhiteSpace s);
          hex = (prefix (str ''0x'') t \<or> prefix (str ''0X'') t);
          body = (if hex then drop 2 t else t);
          z = takeWhile (if hex then isHexDigit else isDigit) body;
          v = digits_val (if hex then 16 else 10) z
      in if z = [] then NaN
         else round_double (if neg then - of_nat v else of_nat v))"

text \<open>
  \<open>parseFloat(s)\<close>: leading white space is skipped and the longest prefix that is a
  decimal literal is the value: a sign, then \<open>Infinity\<close>, or digits with an optional
  fraction and an optional exponent (read only when digits follow it), rounded to a
  double.
\<close>

definition exponent_part :: "jstring \<Rightarrow> int" where
  "exponent_part s =
     (case s of
        [] \<Rightarrow> 0
      | c # cs \<Rightarrow>
          if c = 101 \<or> c = 69 then
            (let (neg, t) = take_sign cs; ds = takeWhile isDigit t
             in if ds = [] then 0
                else if neg then - int (digits_val 10 ds) else int (digits_val 10 ds))
          else 0)"

definition parseFloat :: "jstring \<Rightarrow> jsnum" where
  "parseFloat s =
     (let (neg, t) = take_sign (dropWhile isWhiteSpace s)
      in if prefix (str ''Infinity'') t then (if neg then NegInf else PosInf)
         else
           (let ip = takeWhile isDigit t;
                t1 = drop (length ip) t;
                dot = (t1 \<noteq> [] \<and> hd t1 = 46);
                fp = (if dot then takeWhile isDigit (tl t1) else []);
                t2 = (if dot then drop (length fp) (tl t1) else t1);
                m = of_nat (digits_val 10 (ip @ fp)) / 10 ^ length fp;
                v = m * pow10 (exponent_part t2)
            in if ip = [] \<and> fp = [] then NaN
               else round_double (if neg then - v else v)))"

text \<open>A capture group or any value that may be \<open>undefined\<close>, as the string
  \<open>ToString\<close> makes of it.\<close>

definition ToString :: "jstring option \<Rightarrow> jstring" where
  "ToString v = (case v of None \<Rightarrow> str ''undefined'' | Some s \<Rightarrow> s)"

text \<open>\<open>String.fromCharCode(x)\<close>: the code unit \<open>ToUint16(x)\<close>.\<close>

fun fromCharCode :: "jsnum \<Rightarrow> jstring" where
  "fromCharCode (Fin q) = [nat (trunc q mod 65536)]"
| "fromCharCode x = [0]"

section \<open>Results of running program code\<close>

text \<open>
  What running a piece of the program gives: a value, a thrown value, or no result
  because a loop of the program never ends. A thrown \<open>Error\<close> carries its message; a
  thrown value that is not an \<open>Error\<close> is kept as the string \<open>String\<close> makes of it.
\<close>

datatype thrown = Error jstring | TypeError | Value jstring

datatype 'a outcome = Returns 'a | Throws thrown | Loops

text \<open>Running a loop body over a list, collecting what the body pushes, until the
  body throws.\<close>

fun collect :: "('a \<Rightarrow> 'b option outcome) \<Rightarrow> 'a list \<Rightarrow> 'b list outcome" where
  "collect body [] = Returns []"
| "collect body (x # xs) =
     (case body x of
        Returns pushed \<Rightarrow>
          (case collect body xs of
             Returns ys \<Rightarrow> Returns (case pushed of None \<Rightarrow> ys | Some y \<Rightarrow> y # ys)
           | Throws e \<Rightarrow> Throws e
           | Loops \<Rightarrow> Loops)
      | Throws e \<Rightarrow> Throws e
      | Loops \<Rightarrow> Loops)"

text \<open>The \<open>exec\<close> loop as an outcome.\<close>

definition execLoop :: "re \<Rightarrow> jstring \<Rightarrow> mstate list outcome" where
  "execLoop r s = (case execAll r 0 s of None \<Rightarrow> Loops | Some found \<Rightarrow> Returns found)"

section \<open>extractVideoId\<close>

text \<open>The character class \<open>[a-zA-Z0-9_-]\<close>.\<close>

definition idClass :: cclass where
  "idClass = OneOf [Rng 97 122, Rng 65 90, Rng 48 57, Ch 95, Ch 45]"

text \<open>\<open>(?:https?:\/\/)?(?:www\.)?\<close>, the front of the four URL patterns.\<close>

definition urlFront :: "re list" where
  "urlFront =
     [Opt (cat [Lit (str ''http''), Opt (Lit (str ''s'')), Lit (str ''://'')]),
      Opt (Lit (str ''www.''))]"

definition patterns :: "re list" where
  "patterns =
     [cat (urlFront @ [Lit (str ''youtu.be/''), Cap 1 (Plus idClass)]),
      cat (urlFront @ [Lit (str ''youtube.com/watch?v=''), Cap 1 (Plus idClass)]),
      cat (urlFront @ [Lit (str ''youtube.com/embed/''), Cap 1 (Plus idClass)]),
      cat (urlFront @ [Lit (str ''youtube.com/shorts/''), Cap 1 (Plus idClass)]),
      cat [Bol, Cap 1 (Rep 11 idClass), Eol]]"

text \<open>The loop over the patterns: the first pattern that matches with a non-empty
  group 1 decides.\<close>

fun firstPattern :: "jstring \<Rightarrow> re list \<Rightarrow> jstring option" where
  "firstPattern url [] = None"
| "firstPattern url (pattern # ps) =
     (case match url pattern of
        None \<Rightarrow> firstPattern url ps
      | Some m \<Rightarrow>
          (case caps m 1 of
             None \<Rightarrow> firstPattern url ps
           | Some g \<Rightarrow> if g \<noteq> [] then Some g else firstPattern url ps))"

definition extractVideoId :: "jstring \<Rightarrow> jstring option" where
  "extractVideoId url = firstPattern url patterns"

section \<open>decodeHtmlEntities\<close>

definition numericEntityRe :: re where
  "numericEntityRe = cat [Lit (str ''&#''), Cap 1 (Plus (OneOf [Digit])), Lit (str '';'')]"

definition decodeHtmlEntities :: "jstring \<Rightarrow> jstring" where
  "decodeHtmlEntities text0 =
     (let t1 = replaceAll (Lit (str ''&#39;'')) (\<lambda>_. [39]) 0 text0;
          t2 = replaceAll (Lit (str ''&quot;'')) (\<lambda>_. [34]) 0 t1;
          t3 = replaceAll (Lit (str ''&amp;'')) (\<lambda>_. str ''&'') 0 t2;
          t4 = replaceAll (Lit (str ''&lt;'')) (\<lambda>_. str ''<'') 0 t3;
          t5 = replaceAll (Lit (str ''&gt;'')) (\<lambda>_. str ''>'') 0 t4;
          t6 = replaceAll (Lit (str ''&nbsp;'')) (\<lambda>_. str '' '') 0 t5;
          t7 = replaceAll numericEntityRe (\<lambda>m. fromCharCode (parseInt (ToString (caps m 1)))) 0 t6
      in replaceAll (Plus (OneOf [Space])) (\<lambda>_. str '' '') 0 t7)"

section \<open>parseTranscriptXml\<close>

record segment =
  seg_text :: jstring
  start :: jsnum
  duration :: jsnum

text \<open>\<open><text\s+start="([^"]*)"(?:\s+dur="([^"]*)")?[^>]*>([^<]*)<\/text>\<close>\<close>

definition srv1Re :: re where
  \<open>srv1Re =
     cat [Lit (str ''<text''), Plus (OneOf [Space]), Lit (str ''start="''),
          Cap 1 (Star (NoneOf [Ch 34])), Lit (str ''"''),
          Opt (cat [Plus (OneOf [Space]), Lit (str ''dur="''),
                    Cap 2 (Star (NoneOf [Ch 34])), Lit (str ''"'')]),
          Star (NoneOf [Ch 62]), Lit (str ''>''),
          Cap 3 (Star (NoneOf [Ch 60])), Lit (str ''</text>'')]\<close>

text \<open>\<open><p\s+t="([^"]*)"(?:\s+d="([^"]*)")?[^>]*>([\s\S]*?)<\/p>\<close>\<close>

definition pRe :: re where
  \<open>pRe =
     cat [Lit (str ''<p''), Plus (OneOf [Space]), Lit (str ''t="''),
          Cap 1 (Star (NoneOf [Ch 34])), Lit (str ''"''),
          Opt (cat [Plus (OneOf [Space]), Lit (str ''d="''),
                    Cap 2 (Star (NoneOf [Ch 34])), Lit (str ''"'')]),
          Star (NoneOf [Ch 62]), Lit (str ''>''),
          Cap 3 (LazyStar (OneOf [Space, NonSpace])), Lit (str ''</p>'')]\<close>

text \<open>\<open><s[^>]*>([^<]*)<\/s>\<close>\<close>

definition sRe :: re where
  "sRe =
     cat [Lit (str ''<s''), Star (NoneOf [Ch 62]), Lit (str ''>''),
          Cap 1 (Star (NoneOf [Ch 60])), Lit (str ''</s>'')]"

text \<open>\<open><[^>]+>\<close>, and \<open>x.replace(/<[^>]+>/g, "")\<close>.\<close>

definition tagRe :: re where
  "tagRe = cat [Lit (str ''<''), Plus (NoneOf [Ch 62]), Lit (str ''>'')]"

definition stripTags :: "jstring \<Rightarrow> jstring" where
  "stripTags x = replaceAll tagRe (\<lambda>_. []) 0 x"

text \<open>The body of the first loop: \<open>m[3].trim()\<close> throws a \<open>TypeError\<close> when group 3 is
  \<open>undefined\<close>.\<close>

definition srv1Body :: "mstate \<Rightarrow> segment option outcome" where
  "srv1Body m =
     (case caps m 3 of
        None \<Rightarrow> Throws TypeError
      | Some m3 \<Rightarrow>
          Returns
            (if trim m3 \<noteq> [] then
               Some \<lparr>seg_text = m3,
                     start = or0 (parseFloat (ToString (caps m 1))),
                     duration = or0 (parseFloat (ToString (caps m 2)))\<rparr>
             else None))"

text \<open>The words of a paragraph: \<open>if (s[1]) words.push(s[1])\<close>.\<close>

definition wordOf :: "mstate \<Rightarrow> jstring option" where
  "wordOf s = (case caps s 1 of None \<Rightarrow> None | Some w \<Rightarrow> if w \<noteq> [] then Some w else None)"

text \<open>The body of the second loop. With \<open>inner\<close> \<open>undefined\<close> the inner loop finds no
  word (it searches the string \<open>undefined\<close>) and \<open>inner.replace\<close> throws.\<close>

definition srv3Body :: "mstate \<Rightarrow> segment option outcome" where
  "srv3Body m =
     (let startMs = or0 (parseInt (ToString (caps m 1)));
          durMs = or0 (parseInt (ToString (caps m 2)))
      in case caps m 3 of
           None \<Rightarrow> Throws TypeError
         | Some inner \<Rightarrow>
             (case execLoop sRe inner of
                Returns ss \<Rightarrow>
                  (let words = List.map_filter wordOf ss;
                       text1 = (if words \<noteq> [] then concat words else trim (stripTags inner))
                   in Returns
                        (if text1 \<noteq> [] then
                           Some \<lparr>seg_text = text1,
                                 start = num_div startMs 1000,
                                 duration = num_div durMs 1000\<rparr>
                         else None))
              | Throws e \<Rightarrow> Throws e
              | Loops \<Rightarrow> Loops))"

text \<open>The two loops of \<open>parseTranscriptXml\<close>, each with the list it fills.\<close>

definition srv1Loop :: "jstring \<Rightarrow> segment list outcome" where
  "srv1Loop xml =
     (case execLoop srv1Re xml of
        Returns ms1 \<Rightarrow> collect srv1Body ms1
      | Throws e \<Rightarrow> Throws e
      | Loops \<Rightarrow> Loops)"

definition srv3Loop :: "jstring \<Rightarrow> segment list outcome" where
  "srv3Loop xml =
     (case execLoop pRe xml of
        Returns ms3 \<Rightarrow> collect srv3Body ms3
      | Throws e \<Rightarrow> Throws e
      | Loops \<Rightarrow> Loops)"

definition parseTranscriptXml :: "jstring \<Rightarrow> segment list outcome" where
  "parseTranscriptXml xml =
     (case srv1Loop xml of
        Returns srv1Segments \<Rightarrow>
          if length srv1Segments > 0 then Returns srv1Segments
          else srv3Loop xml
      | Throws e \<Rightarrow> Throws e
      | Loops \<Rightarrow> Loops)"

section \<open>extractJsonObject\<close>

text \<open>\<open>str.substring(a, b)\<close> for \<open>0 \<le> a \<le> b\<close>.\<close>

definition substring :: "jstring \<Rightarrow> nat \<Rightarrow> nat \<Rightarrow> jstring" where
  "substring s a b = take (b - a) (drop a s)"

text \<open>The \<open>for\<close> loop of \<open>extractJsonObject\<close>, from index \<open>i\<close> with the depth reached so
  far.\<close>

function braceLoop :: "jstring \<Rightarrow> nat \<Rightarrow> nat \<Rightarrow> int \<Rightarrow> jstring option" where
  "braceLoop s startIdx i depth =
     (if i < length s then
        (let depth' = (if s ! i = 123 then depth + 1
                       else if s ! i = 125 then depth - 1
                       else depth)
         in if depth' = 0 then Some (substring s startIdx (i + 1))
            else braceLoop s startIdx (i + 1) depth')
      else None)"
  by pat_completeness auto
termination
  by (relation "measure (\<lambda>(s, startIdx, i, depth). length s - i)") auto

declare braceLoop.simps [simp del]

text \<open>\<open>str[startIdx]\<close> is \<open>undefined\<close> for an index outside the string, and so differs
  from \<open>"{"\<close>.\<close>

definition extractJsonObject :: "jstring \<Rightarrow> int \<Rightarrow> jstring option" where
  "extractJsonObject s startIdx =
     (if startIdx < 0 \<or> int (length s) \<le> startIdx \<or> s ! nat startIdx \<noteq> 123 then None
      else braceLoop s (nat startIdx) (nat startIdx) 0)"

section \<open>pickTrackUrl\<close>

record CaptionTrack =
  baseUrl :: jstring
  languageCode :: jstring

text \<open>\<open>(en || tracks[0]).baseUrl\<close>: with no track at all, \<open>tracks[0]\<close> is \<open>undefined\<close> and
  reading \<open>baseUrl\<close> throws.\<close>

definition pickTrackUrl :: "CaptionTrack list \<Rightarrow> jstring outcome" where
  "pickTrackUrl tracks =
     (case find (\<lambda>t. languageCode t = str ''en'' \<or> startsWith (languageCode t) (str ''en'')) tracks of
        Some en \<Rightarrow> Returns (baseUrl en)
      | None \<Rightarrow>
          (case tracks of
             [] \<Rightarrow> Throws TypeError
           | t # _ \<Rightarrow> Returns (baseUrl t)))"

section \<open>The subtitle text of the yt-dlp strategy\<close>

text \<open>\<open>/^\d+$/\<close> and \<open>/-->/\<close>.\<close>

definition cueIndexRe :: re where
  "cueIndexRe = cat [Bol, Plus (OneOf [Digit]), Eol]"

definition arrowRe :: re where
  "arrowRe = Lit (str ''-->'')"

text \<open>The condition under which the loop over the lines skips a trimmed line.\<close>

definition vttSkipped :: "jstring \<Rightarrow> bool" where
  "vttSkipped trimmed \<longleftrightarrow>
     trimmed = [] \<or>
     trimmed = str ''WEBVTT'' \<or>
     startsWith trimmed (str ''Kind:'') \<or>
     startsWith trimmed (str ''Language:'') \<or>
     startsWith trimmed (str ''NOTE'') \<or>
     test cueIndexRe trimmed \<or>
     test arrowRe trimmed"

fun vttLoop :: "jstring list \<Rightarrow> segment list \<Rightarrow> segment list" where
  "vttLoop [] textSegments = textSegments"
| "vttLoop (line # lines) textSegments =
     (let trimmed = trim line
      in if vttSkipped trimmed then vttLoop lines textSegments
         else
           (let cleaned = trim (stripTags trimmed)
            in if cleaned \<noteq> [] \<and> \<not> list_ex (\<lambda>s. seg_text s = cleaned) textSegments
               then vttLoop lines
                      (textSegments @ [\<lparr>seg_text = cleaned, start = Fin 0, duration = Fin 0\<rparr>])
               else vttLoop lines textSegments))"

definition vttSegments :: "jstring \<Rightarrow> segment list" where
  "vttSegments subResp = vttLoop (split_on 10 subResp) []"

text \<open>
  \<open>fetchTranscriptFromYtDlp\<close> from the point where the subtitle file has been
  fetched: \<open>subResp\<close> is the text \<open>curl\<close> printed.
\<close>

definition parseSubtitleResponse :: "jstring \<Rightarrow> segment list outcome" where
  "parseSubtitleResponse subResp =
     (if subResp = [] \<or> length (trim subResp) = 0
      then Throws (Error (str ''yt-dlp: subtitle URL returned empty''))
      else
        (case parseTranscriptXml subResp of
           Returns segments \<Rightarrow>
             if length segments > 0 then Returns segments
             else if str_includes subResp (str ''WEBVTT'') then
               (let textSegments = vttSegments subResp
                in if length textSegments > 0 then Returns textSegments
                   else Throws (Error (str ''yt-dlp: could not parse subtitle content'')))
             else Throws (Error (str ''yt-dlp: could not parse subtitle content''))
         | Throws e \<Rightarrow> Throws e
         | Loops \<Rightarrow> Loops))"

section \<open>Formatting\<close>

definition formatTimestamp :: "jsnum \<Rightarrow> jstring" where
  "formatTimestamp seconds =
     (let mins = Math_floor (num_div seconds 60);
          secs = Math_floor (num_rem seconds 60)
      in padStart (String_num mins) 2 48 @ str '':'' @ padStart (String_num secs) 2 48)"

definition joinSegmentsWithTimestamps :: "segment list \<Rightarrow> jstring" where
  "joinSegmentsWithTimestamps segments =
     join [10]
       (map (\<lambda>s. str ''['' @ formatTimestamp (start s) @ str ''] '' @
                  trim (decodeHtmlEntities (seg_text s)))
          segments)"

definition joinSegments :: "segment list \<Rightarrow> jstring" where
  "joinSegments segments = trim (decodeHtmlEntities (join (str '' '') (map seg_text segments)))"

text \<open>\<open>TranscriptOptions\<close>: the optional field \<open>timestamps\<close>.\<close>

record TranscriptOptions =
  timestamps :: "bool option"

definition formatSegments :: "segment list \<Rightarrow> TranscriptOptions \<Rightarrow> jstring" where
  "formatSegments segments options =
     (if timestamps options = Some True then joinSegmentsWithTimestamps segments
      else joinSegments segments)"

section \<open>getVideoTranscript\<close>

text \<open>
  The three strategies reach the network and a subprocess. Each is a parameter of
  the model: a function from the state of the world to its outcome and the state
  it leaves. The title promise never rejects (\<open>fetchVideoTitle\<close> catches every error),
  so the title it resolves to is a parameter too.
\<close>

type_synonym 'w strategy = "'w \<Rightarrow> segment list outcome \<times> 'w"

record TranscriptResult =
  transcript :: jstring
  title :: jstring

text \<open>\<open>e instanceof Error ? e.message : String(e)\<close>. The message of a \<open>TypeError\<close> is the
  engine's own; the model writes \<open>TypeError\<close> for it.\<close>

definition messageOf :: "thrown \<Rightarrow> jstring" where
  "messageOf e = (case e of Error msg \<Rightarrow> msg | TypeError \<Rightarrow> str ''TypeError'' | Value v \<Rightarrow> v)"

definition allFailed :: "jstring list \<Rightarrow> jstring" where
  "allFailed errors =
     str ''No transcript available. All methods failed:'' @ [10] @
     join [10] (map (\<lambda>e. str ''- '' @ e) errors)"

definition getVideoTranscript ::
  "'w strategy \<Rightarrow> 'w strategy \<Rightarrow> 'w strategy \<Rightarrow> jstring \<Rightarrow> TranscriptOptions \<Rightarrow> 'w \<Rightarrow>
   TranscriptResult outcome \<times> 'w" where
  "getVideoTranscript fetchTranscriptFromAndroid fetchTranscriptFromPage fetchTranscriptFromYtDlp
     titleText options w0 =
     (let errors0 = [] in
      case fetchTranscriptFromAndroid w0 of
        (Returns segments, w1) \<Rightarrow>
          (Returns \<lparr>transcript = formatSegments segments options, title = titleText\<rparr>, w1)
      | (Loops, w1) \<Rightarrow> (Loops, w1)
      | (Throws e1, w1) \<Rightarrow>
          (let errors1 = errors0 @ [str ''ANDROID API: '' @ messageOf e1] in
           case fetchTranscriptFromPage w1 of
             (Returns segments, w2) \<Rightarrow>
               (Returns \<lparr>transcript = formatSegments segments options, title = titleText\<rparr>, w2)
           | (Loops, w2) \<Rightarrow> (Loops, w2)
           | (Throws e2, w2) \<Rightarrow>
               (let errors2 = errors1 @ [str ''Page scraping: '' @ messageOf e2] in
                case fetchTranscriptFromYtDlp w2 of
                  (Returns segments, w3) \<Rightarrow>
                    (Returns \<lparr>transcript = formatSegments segments options, title = titleText\<rparr>, w3)
                | (Loops, w3) \<Rightarrow> (Loops, w3)
                | (Throws e3, w3) \<Rightarrow>
                    (let errors3 = errors2 @ [str ''yt-dlp: '' @ messageOf e3]
                     in (Throws (Error (allFailed errors3)), w3)))))"
section \<open>Auxiliary notions of the proofs\<close>

text \<open>The excess of opening over closing braces in a text.\<close>

definition bal :: "jstring \<Rightarrow> int" where
  "bal xs = int (count_list xs 123) - int (count_list xs 125)"

text \<open>
  A strategy that also records that it ran: the world is paired with the list of the
  tags of the strategies run so far, and the strategy adds its tag when it runs.
\<close>

definition traced :: "nat \<Rightarrow> 'w strategy \<Rightarrow> ('w \<times> nat list) strategy" where
  "traced tag f = (\<lambda>(w, log). case f w of (r, w') \<Rightarrow> (r, (w', log @ [tag])))"

text \<open>A strategy with a fixed outcome, which leaves the world as it is.\<close>

definition always :: "segment list outcome \<Rightarrow> unit strategy" where
  "always r = (\<lambda>w. (r, w))"

text \<open>The language codes the track selector prefers.\<close>

definition english :: "CaptionTrack \<Rightarrow> bool" where
  "english t \<longleftrightarrow> languageCode t = str ''en'' \<or> prefix (str ''en'') (languageCode t)"

text \<open>The least number of code units a match of a regular expression takes.\<close>

primrec min_len :: "re \<Rightarrow> nat" where
  "min_len Eps = 0"
| "min_len (Lit l) = length l"
| "min_len (Star c) = 0"
| "min_len (Plus c) = 1"
| "min_len (LazyStar c) = 0"
| "min_len (Rep n c) = n"
| "min_len (Opt r) = 0"
| "min_len (Seq r1 r2) = min_len r1 + min_len r2"
| "min_len (Cap i r) = min_len r"
| "min_len Bol = 0"
| "min_len Eol = 0"

text \<open>Code units that every match of a regular expression contains.\<close>

primrec needs :: "re \<Rightarrow> nat set" where
  "needs Eps = {}"
| "needs (Lit l) = set l"
| "needs (Star c) = {}"
| "needs (Plus c) = {}"
| "needs (LazyStar c) = {}"
| "needs (Rep n c) = {}"
| "needs (Opt r) = {}"
| "needs (Seq r1 r2) = needs r1 \<union> needs r2"
| "needs (Cap i r) = needs r"
| "needs Bol = {}"
| "needs Eol = {}"

text \<open>The capture groups that every match of a regular expression sets.\<close>

primrec binds :: "re \<Rightarrow> nat set" where
  "binds Eps = {}"
| "binds (Lit l) = {}"
| "binds (Star c) = {}"
| "binds (Plus c) = {}"
| "binds (LazyStar c) = {}"
| "binds (Rep n c) = {}"
| "binds (Opt r) = {}"
| "binds (Seq r1 r2) = binds r1 \<union> binds r2"
| "binds (Cap i r) = insert i (binds r)"
| "binds Bol = {}"
| "binds Eol = {}"

text \<open>The characters of a video identifier: letters, digits, underscore and hyphen.\<close>

definition isIdChar :: "nat \<Rightarrow> bool" where
  "isIdChar c \<longleftrightarrow>
     (97 \<le> c \<and> c \<le> 122) \<or> (65 \<le> c \<and> c \<le> 90) \<or> (48 \<le> c \<and> c \<le> 57) \<or> c = 95 \<or> c = 45"

text \<open>The four URL patterns differ in one literal; the fifth pattern is the bare
  identifier.\<close>

definition urlPattern :: "jstring \<Rightarrow> re" where
  "urlPattern l = cat ((urlFront @ [Lit l]) @ [Cap 1 (Plus idClass)])"

definition barePattern :: re where
  "barePattern = cat [Bol, Cap 1 (Rep 11 idClass), Eol]"


text \<open>
  A string has a URL shape when it contains the host-and-path text of one of the four
  supported URL forms (short link, watch URL, embed URL, short-form video) directly
  followed by an identifier character.
\<close>

definition urlShaped :: "jstring \<Rightarrow> bool" where
  "urlShaped s \<longleftrightarrow>
     (\<exists>base \<in> {str ''youtu.be/'', str ''youtube.com/watch?v='',
                 str ''youtube.com/embed/'', str ''youtube.com/shorts/''}.
        \<exists>pre c post. s = pre @ base @ c # post \<and> isIdChar c)"

text \<open>The match a regular expression reports at a position: the first one the
  backtracking matcher finds.\<close>

definition first_match :: "re \<Rightarrow> mstate \<Rightarrow> mstate option" where
  "first_match r st = (case ms r st of [] \<Rightarrow> None | m # _ \<Rightarrow> Some m)"

text \<open>
  The opening tag of an element, written out. After the tag name come white space,
  the first attribute with its value, optionally white space and the second attribute
  with its value, and any other text up to the closing bracket. \<open>l1\<close> and \<open>l2\<close> are the
  attribute names with \<open>="\<close>. The parts that vary are a quadruple: the white space,
  the first value, the white space and the value of the second attribute if it is
  there, and the other text.
\<close>

type_synonym tag_parts = "jstring \<times> jstring \<times> (jstring \<times> jstring) option \<times> jstring"

definition openingTag :: "jstring \<Rightarrow> jstring \<Rightarrow> jstring \<Rightarrow> tag_parts \<Rightarrow> jstring" where
  "openingTag name l1 l2 g =
     (case g of (ws1, a, d, extra) \<Rightarrow>
        name @ ws1 @ l1 @ a @ [34] @
        (case d of None \<Rightarrow> [] | Some (ws2, dv) \<Rightarrow> ws2 @ l2 @ dv @ [34]) @
        extra @ [62])"

text \<open>White space, at least one character of it.\<close>

definition blankRun :: "jstring \<Rightarrow> bool" where
  "blankRun ws \<longleftrightarrow> ws \<noteq> [] \<and> list_all isWhiteSpace ws"

text \<open>
  The parts of a tag are well formed: the white space is white space, the values
  hold no double quote (34) and the other text holds no closing bracket (62); when
  there is no second attribute, the other text does not start like one (white space
  and then \<open>l2\<close>).
\<close>

definition tagOk :: "jstring \<Rightarrow> tag_parts \<Rightarrow> bool" where
  "tagOk l2 g =
     (case g of (ws1, a, d, extra) \<Rightarrow>
        blankRun ws1 \<and> 34 \<notin> set a \<and> 62 \<notin> set extra \<and>
        (case d of
           None \<Rightarrow> takeWhile isWhiteSpace extra = [] \<or> \<not> prefix l2 (dropWhile isWhiteSpace extra)
         | Some (ws2, dv) \<Rightarrow> blankRun ws2 \<and> 34 \<notin> set dv))"

text \<open>The front of \<open>srv1Re\<close> and of \<open>pRe\<close>, which matches an opening tag.\<close>

definition tagFront :: "jstring \<Rightarrow> jstring \<Rightarrow> jstring \<Rightarrow> re list" where
  "tagFront name l1 l2 =
     [Lit name, Plus (OneOf [Space]), Lit l1, Cap 1 (Star (NoneOf [Ch 34])), Lit [34],
      Opt (cat [Plus (OneOf [Space]), Lit l2, Cap 2 (Star (NoneOf [Ch 34])), Lit [34]]),
      Star (NoneOf [Ch 62]), Lit [62]]"

text \<open>A text holds the tag name, white space and the first attribute name in a row.\<close>

definition leadingAttr :: "jstring \<Rightarrow> jstring \<Rightarrow> jstring \<Rightarrow> bool" where
  "leadingAttr name l1 xml \<longleftrightarrow> (\<exists>pre ws post. xml = pre @ name @ ws @ l1 @ post \<and> blankRun ws)"

text \<open>
  An element of the tag-per-line dialect, written out: the opening tag \<open>text\<close> with the
  attributes \<open>start\<close> and, optionally, \<open>dur\<close>, the caption, and the closing tag. It is
  well formed when its tag is and the caption holds no \<open><\<close> (60). The segment of an
  element has the caption as text and the attribute values, read as decimal
  numbers, as start and duration: 0 for a value that is no number and for a missing
  \<open>dur\<close>.
\<close>

definition textElement :: "tag_parts \<times> jstring \<Rightarrow> jstring" where
  \<open>textElement e =
     (case e of (g, t) \<Rightarrow>
        openingTag (str ''<text'') (str ''start="'') (str ''dur="'') g @ t @ str ''</text>'')\<close>

definition textElementOk :: "tag_parts \<times> jstring \<Rightarrow> bool" where
  \<open>textElementOk e = (case e of (g, t) \<Rightarrow> tagOk (str ''dur="'') g \<and> 60 \<notin> set t)\<close>

definition textSegment :: "tag_parts \<times> jstring \<Rightarrow> segment" where
  "textSegment e =
     (case e of ((ws1, a, d, extra), t) \<Rightarrow>
        \<lparr>seg_text = t, start = or0 (parseFloat a),
         duration = (case d of None \<Rightarrow> Fin 0 | Some (ws2, dv) \<Rightarrow> or0 (parseFloat dv))\<rparr>)"

text \<open>The caption of an element is not blank.\<close>

definition captioned :: "tag_parts \<times> jstring \<Rightarrow> bool" where
  "captioned e \<longleftrightarrow> trim (snd e) \<noteq> []"

text \<open>A text without the opening of a \<open>text\<close> tag.\<close>

definition noTextTag :: "jstring \<Rightarrow> bool" where
  "noTextTag j \<longleftrightarrow> \<not> sublist (str ''<text'') j"

text \<open>A document of the tag-per-line dialect: elements, each after some other text.\<close>

definition textDocument :: "(jstring \<times> tag_parts \<times> jstring) list \<Rightarrow> jstring" where
  "textDocument es = concat (map (\<lambda>(j, e). j @ textElement e) es)"

text \<open>
  A word element of the nested-paragraph dialect, written out: the tag \<open>s\<close> with any
  attributes and the word as content. The content of a paragraph is a sequence of
  word elements, each after some other text, and some other text at the end.
\<close>

definition wordElement :: "jstring \<times> jstring \<Rightarrow> jstring" where
  "wordElement x = (case x of (attrs, w) \<Rightarrow> str ''<s'' @ attrs @ str ''>'' @ w @ str ''</s>'')"

definition wordsInner :: "(jstring \<times> jstring \<times> jstring) list \<Rightarrow> jstring \<Rightarrow> jstring" where
  "wordsInner items after = concat (map (\<lambda>(j, x). j @ wordElement x) items) @ after"

text \<open>
  A paragraph, written out: the opening tag \<open>p\<close> with the attributes \<open>t\<close> and,
  optionally, \<open>d\<close>, the content, and the closing tag. It is well formed when its tag
  is, the word elements have no \<open>>\<close> (62) in their attributes and no \<open><\<close> (60) in their
  words, the other text of the content holds no \<open><s\<close>, and the content holds no
  closing tag of a paragraph.
\<close>

type_synonym paragraph_parts = "tag_parts \<times> (jstring \<times> jstring \<times> jstring) list \<times> jstring"

definition paragraphElement :: "paragraph_parts \<Rightarrow> jstring" where
  \<open>paragraphElement p =
     (case p of (g, items, after) \<Rightarrow>
        openingTag (str ''<p'') (str ''t="'') (str ''d="'') g @ wordsInner items after @ str ''</p>'')\<close>

definition paragraphOk :: "paragraph_parts \<Rightarrow> bool" where
  \<open>paragraphOk p =
     (case p of (g, items, after) \<Rightarrow>
        tagOk (str ''d="'') g \<and>
        (\<forall>(j, attrs, w) \<in> set items. \<not> sublist (str ''<s'') j \<and> 62 \<notin> set attrs \<and> 60 \<notin> set w) \<and>
        \<not> sublist (str ''<s'') after \<and>
        \<not> sublist (str ''</p>'') (wordsInner items after))\<close>

text \<open>The timing of a paragraph in seconds: the attribute value read as an integer, 0
  when it is not a number, divided by 1000.\<close>

definition msToSeconds :: "jstring \<Rightarrow> jsnum" where
  "msToSeconds v = num_div (or0 (parseInt v)) 1000"

text \<open>
  The text of a paragraph: the words of its word elements joined with nothing between
  them, and when that is empty the content with the markup stripped, trimmed. The
  segment of a paragraph, if the text is not empty: the text, the \<open>t\<close> attribute as
  start and the \<open>d\<close> attribute as duration, 0 when \<open>d\<close> is missing.
\<close>

definition paragraphText :: "(jstring \<times> jstring \<times> jstring) list \<Rightarrow> jstring \<Rightarrow> jstring" where
  "paragraphText items after =
     (let joined = concat (map (\<lambda>(j, attrs, w). w) items)
      in if joined \<noteq> [] then joined else trim (stripTags (wordsInner items after)))"

definition paragraphSegment :: "paragraph_parts \<Rightarrow> segment option" where
  "paragraphSegment p =
     (case p of ((ws1, a, d, extra), items, after) \<Rightarrow>
        if paragraphText items after \<noteq> [] then
          Some \<lparr>seg_text = paragraphText items after, start = msToSeconds a,
                duration = (case d of None \<Rightarrow> Fin 0 | Some (ws2, dv) \<Rightarrow> msToSeconds dv)\<rparr>
        else None)"

text \<open>A text without the opening of a \<open>p\<close> tag, and a document of the nested-paragraph
  dialect: paragraphs, each after some other text.\<close>

definition noParagraphTag :: "jstring \<Rightarrow> bool" where
  "noParagraphTag j \<longleftrightarrow> \<not> sublist (str ''<p'') j"

definition paragraphDocument :: "(jstring \<times> paragraph_parts) list \<Rightarrow> jstring" where
  "paragraphDocument ps = concat (map (\<lambda>(j, p). j @ paragraphElement p) ps)"

text \<open>
  The structural lines of a WebVTT file, as the fallback path of the yt-dlp strategy
  takes them: a blank line, the format header, a \<open>Kind:\<close> or \<open>Language:\<close> header, a
  line that starts with \<open>NOTE\<close>, a cue index (digits only) and a cue timing line (one
  that contains the arrow).
\<close>

definition vttStructural :: "jstring \<Rightarrow> bool" where
  "vttStructural trimmed \<longleftrightarrow>
     trimmed = [] \<or> trimmed = str ''WEBVTT'' \<or>
     prefix (str ''Kind:'') trimmed \<or> prefix (str ''Language:'') trimmed \<or>
     prefix (str ''NOTE'') trimmed \<or>
     (trimmed \<noteq> [] \<and> list_all isDigit trimmed) \<or>
     sublist (str ''-->'') trimmed"

text \<open>
  The caption texts of a payload before the removal of repeats: the lines that are not
  structural, each trimmed, with the markup stripped and trimmed again, the empty
  ones left out. No HTML entity is decoded here.
\<close>

definition vttCandidates :: "jstring \<Rightarrow> jstring list" where
  "vttCandidates payload =
     filter (\<lambda>c. c \<noteq> [])
       (map (\<lambda>line. trim (stripTags (trim line)))
          (filter (\<lambda>line. \<not> vttStructural (trim line)) (split_on 10 payload)))"

text \<open>A list without its repeats: of equal elements the first one stays.\<close>

definition firstOccurrences :: "'a list \<Rightarrow> 'a list" where
  "firstOccurrences xs = rev (remdups (rev xs))"




section \<open>Rounding to a double\<close>

lemma pow2_powi: "pow2 e = 2 powi e"
  by (simp add: pow2_def power_int_def power_inverse inverse_eq_divide power_one_over)

lemma pow2_pos [simp]: "0 < pow2 e"
  by (simp add: pow2_def)

lemma pow2_add: "pow2 (a + b) = pow2 a * pow2 b"
  by (simp add: pow2_powi power_int_add)

lemma pow2_diff: "pow2 (a - b) = pow2 a / pow2 b"
  by (simp add: pow2_powi power_int_diff)

lemma pow2_nat: "pow2 (int n) = 2 ^ n"
  by (simp add: pow2_def)

lemma pow2_mono: "a \<le> b \<Longrightarrow> pow2 a \<le> pow2 b"
proof -
  assume "a \<le> b"
  then have "pow2 (b - a) = 2 ^ nat (b - a)" by (simp add: pow2_def)
  then have "1 \<le> pow2 (b - a)" by simp
  moreover have "pow2 b = pow2 a * pow2 (b - a)" using pow2_add[of a "b - a"] by simp
  ultimately show ?thesis using pow2_pos[of a] mult_left_mono[of 1 "pow2 (b - a)" "pow2 a"] by simp
qed

lemma pow2_less_cancel: "pow2 a < pow2 b \<Longrightarrow> a < b"
  using pow2_mono[of b a] by (cases "a < b") simp_all

lemma ilog2_bounds:
  assumes "0 < q"
  shows "pow2 (ilog2 q) \<le> q" and "q < pow2 (ilog2 q + 1)"
proof -
  obtain a b where ab: "quotient_of q = (a, b)" by (cases "quotient_of q")
  then have b: "0 < b" and q: "q = of_int a / of_int b"
    by (simp_all add: quotient_of_denom_pos quotient_of_div)
  with assms have a: "0 < a" by (simp add: zero_less_divide_iff)
  define la lb where "la = floorlog 2 (nat a)" and "lb = floorlog 2 (nat b)"
  have fa: "2 ^ (la - 1) \<le> nat a" "nat a < 2 ^ la" and fb: "2 ^ (lb - 1) \<le> nat b" "nat b < 2 ^ lb"
    using floorlog_bounds[of "nat a" 2] floorlog_bounds[of "nat b" 2] a b by (simp_all add: la_def lb_def)
  have la: "1 \<le> la" using fa(2) a by (cases la) simp_all
  have lb: "1 \<le> lb" using fb(2) b by (cases lb) simp_all
  have ra: "(2::rat) ^ (la - 1) \<le> of_int a" "of_int a < (2::rat) ^ la"
    and rb: "(2::rat) ^ (lb - 1) \<le> of_int b" "of_int b < (2::rat) ^ lb"
  proof -
    have "(of_nat (2 ^ (la - 1)) :: rat) \<le> of_nat (nat a)" using fa(1) by (simp only: of_nat_le_iff)
    then show "(2::rat) ^ (la - 1) \<le> of_int a" using a by simp
    have "(of_nat (nat a) :: rat) < of_nat (2 ^ la)" using fa(2) by (simp only: of_nat_less_iff)
    then show "of_int a < (2::rat) ^ la" using a by simp
    have "(of_nat (2 ^ (lb - 1)) :: rat) \<le> of_nat (nat b)" using fb(1) by (simp only: of_nat_le_iff)
    then show "(2::rat) ^ (lb - 1) \<le> of_int b" using b by simp
    have "(of_nat (nat b) :: rat) < of_nat (2 ^ lb)" using fb(2) by (simp only: of_nat_less_iff)
    then show "of_int b < (2::rat) ^ lb" using b by simp
  qed
  define d where "d = int la - int lb"
  have "d - 1 = int (la - 1) - int lb" using la by (simp add: d_def of_nat_diff)
  then have "pow2 (d - 1) = pow2 (int (la - 1) - int lb)" by (simp only:)
  also have "\<dots> = 2 ^ (la - 1) / 2 ^ lb" by (simp only: pow2_diff pow2_nat)
  also have "\<dots> \<le> of_int a / of_int b"
    using ra(1) rb(2) a b by (intro frac_le) simp_all
  finally have lo: "pow2 (d - 1) \<le> q" using q by simp
  have "q = of_int a / of_int b" by (rule q)
  also have "\<dots> < 2 ^ la / 2 ^ (lb - 1)"
    using ra(2) rb(1) a b by (intro frac_less) simp_all
  also have "\<dots> = pow2 (int la - int (lb - 1))" by (simp only: pow2_diff pow2_nat)
  also have "int la - int (lb - 1) = d + 1" using lb by (simp add: d_def of_nat_diff)
  finally have hi: "q < pow2 (d + 1)" .
  have il: "ilog2 q = (if pow2 d \<le> q then d else d - 1)"
    by (simp add: ilog2_def ab la_def lb_def d_def)
  show "pow2 (ilog2 q) \<le> q" using lo by (simp add: il)
  show "q < pow2 (ilog2 q + 1)" using hi by (simp add: il not_le)
qed

lemma ilog2_less: "0 < q \<Longrightarrow> q < pow2 n \<Longrightarrow> ilog2 q < n"
  using ilog2_bounds(1)[of q] by (intro pow2_less_cancel) simp

lemma ilog2_ge: "0 < q \<Longrightarrow> pow2 n \<le> q \<Longrightarrow> n \<le> ilog2 q"
  using ilog2_bounds(2)[of q] pow2_less_cancel[of n "ilog2 q + 1"] by simp

lemma round_even_of_int: "round_even (of_int n) = n"
  by (simp add: round_even_def)



lemma pow2_below_52: "e \<le> 52 \<Longrightarrow> pow2 (e - 52) = 1 / 2 ^ nat (52 - e)"
  by (cases "e = 52") (simp_all add: pow2_def)

lemma round_double_dyadic:
  assumes "0 < n" "n < 2 ^ 53" "j \<le> 1022"
  shows "round_double (of_int n / 2 ^ j) = Fin (of_int n / 2 ^ j)"
proof -
  define q :: rat where "q = of_int n / 2 ^ j"
  have q: "0 < q" using assms(1) by (simp add: q_def)
  have "(1::rat) \<le> of_int n" using assms(1) by simp
  then have "1 / 2 ^ j \<le> q" by (simp add: q_def divide_right_mono)
  moreover have "pow2 (- int j) = 1 / 2 ^ j" by (simp add: pow2_def)
  ultimately have "pow2 (- int j) \<le> q" by (simp only:)
  then have "- int j \<le> ilog2 q" using q by (intro ilog2_ge)
  then have e0: "- 1022 \<le> ilog2 q" using assms(3) by simp
  have "(of_int n :: rat) < of_int (2 ^ 53)" using assms(2) by (simp only: of_int_less_iff)
  then have "q < 2 ^ 53 / 2 ^ j" by (simp add: q_def divide_strict_right_mono)
  also have "\<dots> = pow2 (53 - int j)" using pow2_diff[of 53 "int j"] by (simp add: pow2_def)
  finally have lt: "q < pow2 (53 - int j)" .
  then have e53: "ilog2 q < 53 - int j" using q by (intro ilog2_less)
  define N where "N = (2::int) ^ nat (52 - ilog2 q)"
  define M where "M = (2::int) ^ nat (52 - ilog2 q - int j)"
  have N: "0 < N" by (simp add: N_def)
  have M: "M \<noteq> 0" by (simp add: M_def)
  have "nat (52 - ilog2 q) = nat (52 - ilog2 q - int j) + j" using e53 by simp
  then have NM: "N = M * 2 ^ j" unfolding N_def M_def by (simp only: power_add)
  have u: "pow2 (max (ilog2 q) (- 1022) - 52) = 1 / of_int N"
    using e0 e53 by (simp add: max_def pow2_below_52 N_def)
  have "q / (1 / of_int N) = of_int (n * M)" using M by (simp add: q_def NM)
  then have r: "round_even (q / (1 / of_int N)) = n * M" by (simp only: round_even_of_int)
  have "pow2 (53 - int j) \<le> pow2 1024" by (rule pow2_mono) simp
  with lt have big: "\<not> pow2 1024 \<le> q" by simp
  have v: "of_int (n * M) * (1 / of_int N) = q" using M by (simp add: q_def NM)
  have z: "(q = 0) = False" "(q < 0) = False" "\<bar>q\<bar> = q" using q by simp_all
  have "round_double q = Fin q" unfolding round_double_def Let_def z u r v using big by simp
  then show ?thesis unfolding q_def .
qed

lemma round_double_int:
  assumes "0 < n" "n < 2 ^ 53"
  shows "round_double (of_int n) = Fin (of_int n)"
  using round_double_dyadic[OF assms, of 0] by simp

lemma round_double_0: "round_double 0 = Fin 0"
  by (simp add: round_double_def)

lemma round_double_1: "round_double 1 = Fin 1"
  using round_double_int[of 1] by simp

lemma round_double_numeral:
  "(numeral w :: int) < 9007199254740992 \<Longrightarrow> round_double (numeral w) = Fin (numeral w)"
  using round_double_int[of "numeral w"] by simp

lemma round_double_half:
  "(numeral w :: int) < 9007199254740992 \<Longrightarrow> round_double (numeral w / 2) = Fin (numeral w / 2)"
  using round_double_dyadic[of "numeral w" 1] by simp



section \<open>Properties of the matcher\<close>

lemma run_le_length: "run c s \<le> length s"
  by (simp add: run_def length_takeWhile_le)

lemma rest_advance [simp]: "rest (advance k st) = drop k (rest st)"
  and pos_advance [simp]: "pos (advance k st) = pos st + k"
  and caps_advance [simp]: "caps (advance k st) = caps st"
  by (simp_all add: advance_def)

lemma upt_set_le: "{0..<Suc n} = {k. k \<le> n}"
  by auto

lemma upt_set_range: "{1..<Suc n} = {k. 1 \<le> k \<and> k \<le> n}"
  by auto

lemma set_ms_Star: "set (ms (Star c) st) = (\<lambda>k. advance k st) ` {k. k \<le> run c (rest st)}"
  unfolding ms.simps set_map set_rev set_upt upt_set_le by (rule refl)

lemma set_ms_LazyStar: "set (ms (LazyStar c) st) = (\<lambda>k. advance k st) ` {k. k \<le> run c (rest st)}"
  unfolding ms.simps set_map set_upt upt_set_le by (rule refl)

lemma set_ms_Plus:
  "set (ms (Plus c) st) = (\<lambda>k. advance k st) ` {k. 1 \<le> k \<and> k \<le> run c (rest st)}"
  unfolding ms.simps set_map set_rev set_upt upt_set_range by (rule refl)

lemma ms_advance:
  "st' \<in> set (ms r st) \<Longrightarrow>
   \<exists>k. min_len r \<le> k \<and> k \<le> length (rest st) \<and> rest st' = drop k (rest st) \<and> pos st' = pos st + k"
proof (induction r arbitrary: st st')
  case Eps
  then show ?case by (intro exI[of _ 0]) simp
next
  case (Lit l)
  then have "prefix l (rest st)" and "st' = advance (length l) st"
    by (auto split: if_splits)
  then show ?case by (intro exI[of _ "length l"]) (simp add: prefix_length_le)
next
  case (Star c)
  then obtain k where "k \<le> run c (rest st)" "st' = advance k st"
    unfolding set_ms_Star by blast
  then show ?case using run_le_length[of c "rest st"] by (intro exI[of _ k]) simp
next
  case (Plus c)
  then obtain k where "1 \<le> k" "k \<le> run c (rest st)" "st' = advance k st"
    unfolding set_ms_Plus by blast
  then show ?case using run_le_length[of c "rest st"] by (intro exI[of _ k]) simp
next
  case (LazyStar c)
  then obtain k where "k \<le> run c (rest st)" "st' = advance k st"
    unfolding set_ms_LazyStar by blast
  then show ?case using run_le_length[of c "rest st"] by (intro exI[of _ k]) simp
next
  case (Rep n c)
  then have "n \<le> run c (rest st)" "st' = advance n st" by (auto split: if_splits)
  then show ?case using run_le_length[of c "rest st"] by (intro exI[of _ n]) simp
next
  case (Opt r)
  then consider "st' \<in> set (ms r st)" | "st' = st" by auto
  then show ?case
  proof cases
    case 1
    from Opt.IH[OF 1] show ?thesis by auto
  next
    case 2
    then show ?thesis by (intro exI[of _ 0]) simp
  qed
next
  case (Seq r1 r2)
  then obtain st1 where st1: "st1 \<in> set (ms r1 st)" "st' \<in> set (ms r2 st1)" by auto
  from Seq.IH(1)[OF st1(1)] obtain k1 where k1: "min_len r1 \<le> k1" "k1 \<le> length (rest st)"
    "rest st1 = drop k1 (rest st)" "pos st1 = pos st + k1" by auto
  from Seq.IH(2)[OF st1(2)] obtain k2 where k2: "min_len r2 \<le> k2" "k2 \<le> length (rest st1)"
    "rest st' = drop k2 (rest st1)" "pos st' = pos st1 + k2" by auto
  show ?case using k1 k2 by (intro exI[of _ "k1 + k2"]) (simp add: add.commute)
next
  case (Cap i r)
  then obtain st1 where st1: "st1 \<in> set (ms r st)" "rest st' = rest st1" "pos st' = pos st1"
    by auto
  from Cap.IH[OF st1(1)] show ?case using st1 by auto
next
  case Bol
  then show ?case by (intro exI[of _ 0]) (auto split: if_splits)
next
  case Eol
  then show ?case by (intro exI[of _ 0]) (auto split: if_splits)
qed

lemma ms_needs: "st' \<in> set (ms r st) \<Longrightarrow> needs r \<subseteq> set (rest st)"
proof (induction r arbitrary: st st')
  case (Lit l)
  then have "prefix l (rest st)" by (auto split: if_splits)
  then show ?case by (auto simp: prefix_def)
next
  case (Seq r1 r2)
  then obtain st1 where st1: "st1 \<in> set (ms r1 st)" "st' \<in> set (ms r2 st1)" by auto
  from ms_advance[OF st1(1)] obtain k where "rest st1 = drop k (rest st)" by auto
  then have "set (rest st1) \<subseteq> set (rest st)" by (simp add: set_drop_subset)
  with Seq.IH(1)[OF st1(1)] Seq.IH(2)[OF st1(2)] show ?case by auto
next
  case (Cap i r)
  then obtain st1 where "st1 \<in> set (ms r st)" by auto
  from Cap.IH[OF this] show ?case by simp
qed simp_all

lemma ms_binds: "st' \<in> set (ms r st) \<Longrightarrow> dom (caps st) \<union> binds r \<subseteq> dom (caps st')"
proof (induction r arbitrary: st st')
  case (Opt r)
  then consider "st' \<in> set (ms r st)" | "st' = st" by auto
  then show ?case using Opt.IH by cases auto
next
  case (Seq r1 r2)
  then obtain st1 where st1: "st1 \<in> set (ms r1 st)" "st' \<in> set (ms r2 st1)" by auto
  from Seq.IH(1)[OF st1(1)] Seq.IH(2)[OF st1(2)] show ?case by (simp add: subset_iff)
next
  case (Cap i r)
  then obtain st1 where st1: "st1 \<in> set (ms r st)" "dom (caps st') = insert i (dom (caps st1))"
    by auto
  from Cap.IH[OF st1(1)] st1(2) show ?case by auto
qed (auto split: if_splits)

lemma search_Some:
  "search r p s = Some (skipped, m) \<Longrightarrow>
   length skipped \<le> length s \<and> skipped = take (length skipped) s \<and>
   m \<in> set (ms r (start_at (p + length skipped) (drop (length skipped) s)))"
proof (induction s arbitrary: p skipped)
  case Nil
  then show ?case by (auto split: list.splits)
next
  case (Cons c cs)
  show ?case
  proof (cases "ms r (start_at p (c # cs))")
    case Nil
    with Cons.prems obtain sk where sk: "search r (Suc p) cs = Some (sk, m)" "skipped = c # sk"
      by (auto split: option.splits)
    from Cons.IH[OF sk(1)] sk(2) show ?thesis by simp
  next
    case (Cons m' rest')
    with Cons.prems have "skipped = []" "m = m'" by auto
    with Cons show ?thesis by simp
  qed
qed

lemma rest_start_at [simp]: "rest (start_at p s) = s"
  and pos_start_at [simp]: "pos (start_at p s) = p"
  and caps_start_at [simp]: "caps (start_at p s) = Map.empty"
  by (simp_all add: start_at_def)

lemma search_bounds:
  assumes "search r p s = Some (skipped, m)"
  shows "length skipped + min_len r + length (rest m) \<le> length s"
    and "pos m + length (rest m) = p + length s"
    and "\<exists>k. rest m = drop k s"
proof -
  from search_Some[OF assms] have sk: "length skipped \<le> length s"
    and m: "m \<in> set (ms r (start_at (p + length skipped) (drop (length skipped) s)))" by auto
  from ms_advance[OF m] obtain k where k: "min_len r \<le> k" "k \<le> length s - length skipped"
    "rest m = drop k (drop (length skipped) s)" "pos m = p + length skipped + k" by auto
  show "length skipped + min_len r + length (rest m) \<le> length s" using k sk by simp
  show "pos m + length (rest m) = p + length s" using k sk by simp
  show "\<exists>k. rest m = drop k s" using k by auto
qed

lemma search_needs: "search r p s = Some x \<Longrightarrow> needs r \<subseteq> set s"
proof -
  assume a: "search r p s = Some x"
  obtain skipped m where x: "x = (skipped, m)" by (cases x)
  from search_Some[OF a[unfolded x]]
  have "m \<in> set (ms r (start_at (p + length skipped) (drop (length skipped) s)))" by simp
  from ms_needs[OF this] have "needs r \<subseteq> set (drop (length skipped) s)" by simp
  then show ?thesis using set_drop_subset[of "length skipped" s] by blast
qed

lemma search_binds: "search r p s = Some (skipped, m) \<Longrightarrow> binds r \<subseteq> dom (caps m)"
proof -
  assume "search r p s = Some (skipped, m)"
  from search_Some[OF this]
  have "m \<in> set (ms r (start_at (p + length skipped) (drop (length skipped) s)))" by simp
  from ms_binds[OF this] show ?thesis by simp
qed

lemma execAll_total: "0 < min_len r \<Longrightarrow> \<exists>found. execAll r p s = Some found"
proof (induction r p s rule: execAll.induct)
  case (1 r p s)
  show ?case
  proof (cases "search r p s")
    case None
    then show ?thesis by (subst execAll.simps) simp
  next
    case (Some x)
    obtain skipped m where x: "x = (skipped, m)" by (cases x)
    from search_bounds(1)[OF Some[unfolded x]] "1.prems" have lt: "length (rest m) < length s"
      by simp
    from "1.IH"[OF Some[unfolded x] refl lt "1.prems"] obtain found
      where "execAll r (pos m) (rest m) = Some found" by auto
    with Some x lt show ?thesis by (subst execAll.simps) simp
  qed
qed

lemma execAll_binds:
  "execAll r p s = Some found \<Longrightarrow> m \<in> set found \<Longrightarrow> binds r \<subseteq> dom (caps m)"
proof (induction r p s arbitrary: found rule: execAll.induct)
  case (1 r p s)
  show ?case
  proof (cases "search r p s")
    case None
    with "1.prems" show ?thesis by (subst (asm) execAll.simps) simp
  next
    case (Some x)
    obtain skipped m' where x: "x = (skipped, m')" by (cases x)
    from "1.prems"(1) Some x have lt: "length (rest m') < length s"
      by (subst (asm) execAll.simps) (simp split: if_splits)
    from "1.prems"(1) Some x lt obtain found' where f: "execAll r (pos m') (rest m') = Some found'"
      "found = m' # found'"
      by (subst (asm) execAll.simps) auto
    from "1.prems"(2) f(2) consider "m = m'" | "m \<in> set found'" by auto
    then show ?thesis
    proof cases
      case 1
      then show ?thesis using search_binds[OF Some[unfolded x]] by simp
    next
      case 2
      from "1.IH"[OF Some[unfolded x] refl lt f(1) 2] show ?thesis .
    qed
  qed
qed

section \<open>The loops of the caption parser end and do not throw\<close>

lemma collect_Returns:
  "(\<And>x. x \<in> set xs \<Longrightarrow> \<exists>v. body x = Returns v) \<Longrightarrow> \<exists>ys. collect body xs = Returns ys"
proof (induction xs)
  case Nil
  then show ?case by simp
next
  case (Cons x xs)
  from Cons.prems[of x] obtain v where v: "body x = Returns v" by auto
  from Cons.IH Cons.prems obtain ys where ys: "collect body xs = Returns ys" by auto
  show ?case by (simp add: v ys)
qed

lemma min_len_srv1Re: "0 < min_len srv1Re"
  and min_len_pRe: "0 < min_len pRe"
  and min_len_sRe: "0 < min_len sRe"
  and min_len_tagRe: "0 < min_len tagRe"
  by (simp_all add: srv1Re_def pRe_def sRe_def tagRe_def cat_def str_def)

lemma binds_srv1Re: "3 \<in> binds srv1Re"
  and binds_pRe: "3 \<in> binds pRe"
  by (simp_all add: srv1Re_def pRe_def cat_def)

lemma needs_srv1Re: "60 \<in> needs srv1Re"
  and needs_pRe: "60 \<in> needs pRe"
  by (simp_all add: srv1Re_def pRe_def cat_def str_def)

lemma execLoop_total: "0 < min_len r \<Longrightarrow> \<exists>found. execLoop r s = Returns found"
  using execAll_total[of r 0 s] by (auto simp: execLoop_def)

lemma execLoop_binds:
  "execLoop r s = Returns found \<Longrightarrow> m \<in> set found \<Longrightarrow> i \<in> binds r \<Longrightarrow> \<exists>g. caps m i = Some g"
  using execAll_binds[of r 0 s found m] by (auto simp: execLoop_def split: option.splits)

lemma execLoop_no_match: "\<not> needs r \<subseteq> set s \<Longrightarrow> execLoop r s = Returns []"
proof -
  assume a: "\<not> needs r \<subseteq> set s"
  have "search r 0 s = None" using search_needs[of r 0 s] a by (cases "search r 0 s") auto
  then show ?thesis by (simp add: execLoop_def execAll.simps)
qed

lemma srv1Body_Returns: "caps m 3 = Some g \<Longrightarrow> \<exists>v. srv1Body m = Returns v"
  by (simp add: srv1Body_def)

lemma srv3Body_Returns: "caps m 3 = Some g \<Longrightarrow> \<exists>v. srv3Body m = Returns v"
proof -
  assume g: "caps m 3 = Some g"
  from execLoop_total[OF min_len_sRe, of g] obtain ss where "execLoop sRe g = Returns ss" by auto
  then show ?thesis by (simp add: srv3Body_def g Let_def)
qed

lemma srv1Loop_total: "\<exists>segs. srv1Loop xml = Returns segs"
proof -
  from execLoop_total[OF min_len_srv1Re, of xml] obtain ms1
    where ms1: "execLoop srv1Re xml = Returns ms1" by auto
  have "\<exists>v. srv1Body m = Returns v" if "m \<in> set ms1" for m
    using execLoop_binds[OF ms1 that binds_srv1Re] srv1Body_Returns by auto
  from collect_Returns[of ms1 srv1Body, OF this] show ?thesis
    by (simp add: srv1Loop_def ms1)
qed

lemma srv3Loop_total: "\<exists>segs. srv3Loop xml = Returns segs"
proof -
  from execLoop_total[OF min_len_pRe, of xml] obtain ms3
    where ms3: "execLoop pRe xml = Returns ms3" by auto
  have "\<exists>v. srv3Body m = Returns v" if "m \<in> set ms3" for m
    using execLoop_binds[OF ms3 that binds_pRe] srv3Body_Returns by auto
  from collect_Returns[of ms3 srv3Body, OF this] show ?thesis
    by (simp add: srv3Loop_def ms3)
qed

lemma parseTranscriptXml_Returns: "\<exists>segs. parseTranscriptXml xml = Returns segs"
proof -
  from srv1Loop_total[of xml] obtain s1 where s1: "srv1Loop xml = Returns s1" by auto
  from srv3Loop_total[of xml] obtain s3 where s3: "srv3Loop xml = Returns s3" by auto
  show ?thesis by (simp add: parseTranscriptXml_def s1 s3)
qed

lemma parseTranscriptXml_no_tag: "60 \<notin> set xml \<Longrightarrow> parseTranscriptXml xml = Returns []"
proof -
  assume a: "60 \<notin> set xml"
  have "execLoop srv1Re xml = Returns []" "execLoop pRe xml = Returns []"
    using a needs_srv1Re needs_pRe by (auto intro!: execLoop_no_match)
  then show ?thesis by (simp add: parseTranscriptXml_def srv1Loop_def srv3Loop_def)
qed

lemmas ev_re = execLoop_def execAll.simps replaceAll.simps srv1Re_def pRe_def sRe_def tagRe_def
  cat_def str_def start_at_def advance_def run_def

lemmas ev_num = parseInt_def parseFloat_def ToString_def take_sign_def digits_val_def
  digit_val_def exponent_part_def pow10_def isWhiteSpace_def isDigit_def isHexDigit_def
  round_double_0 round_double_1 round_double_numeral round_double_half

lemmas ev_xml = parseTranscriptXml_def srv1Loop_def srv3Loop_def srv1Body_def srv3Body_def
  wordOf_def trim_def stripTags_def List.map_filter_def

lemmas ev_xml2 = ev_xml ev_re ev_num upt_conv_Cons

section \<open>extractJsonObject: the result is a balanced span\<close>

lemma bal_Nil [simp]: "bal [] = 0" by (simp add: bal_def)

lemma bal_snoc: "bal (xs @ [c]) = bal xs + (if c = 123 then 1 else if c = 125 then - 1 else 0)"
  by (simp add: bal_def)

lemma substring_Suc:
  "a \<le> i \<Longrightarrow> i < length s \<Longrightarrow> substring s a (Suc i) = substring s a i @ [s ! i]"
  by (simp add: substring_def Suc_diff_le take_Suc_conv_app_nth)

lemma substring_same [simp]: "substring s a a = []"
  by (simp add: substring_def)

lemma braceLoop_Some:
  "braceLoop s a i d = Some r \<Longrightarrow> a \<le> i \<Longrightarrow> d = bal (substring s a i) \<Longrightarrow>
   (i = a \<and> a < length s \<and> s ! a = 123) \<or> 0 < d \<Longrightarrow>
   (\<forall>k. a < k \<and> k \<le> i \<longrightarrow> 0 < bal (substring s a k)) \<Longrightarrow>
   \<exists>j. i \<le> j \<and> j < length s \<and> r = substring s a (Suc j) \<and> bal r = 0 \<and>
       (\<forall>k. a < k \<and> k \<le> j \<longrightarrow> 0 < bal (substring s a k))"
proof (induction s a i d rule: braceLoop.induct)
  case (1 s a i d)
  from "1.prems"(1) have lt: "i < length s"
    by (subst (asm) braceLoop.simps) (auto split: if_splits)
  define d' where "d' = (if s ! i = 123 then d + 1 else if s ! i = 125 then d - 1 else d)"
  have d'bal: "d' = bal (substring s a (Suc i))"
    using "1.prems"(2,3) lt by (simp add: d'_def substring_Suc bal_snoc)
  have d'nonneg: "0 \<le> d'"
    using "1.prems"(3,4) by (auto simp: d'_def)
  show ?case
  proof (cases "d' = 0")
    case True
    with "1.prems"(1) lt have "r = substring s a (Suc i)"
      by (subst (asm) braceLoop.simps) (simp add: d'_def Let_def)
    with True d'bal "1.prems"(5) lt show ?thesis
      by (intro exI[of _ i]) auto
  next
    case False
    with "1.prems"(1) lt have rec: "braceLoop s a (i + 1) d' = Some r"
      by (subst (asm) braceLoop.simps) (simp add: d'_def Let_def)
    have pos: "0 < d'" using False d'nonneg by simp
    have inv: "\<forall>k. a < k \<and> k \<le> i + 1 \<longrightarrow> 0 < bal (substring s a k)"
      using "1.prems"(5) pos d'bal by (auto simp: le_Suc_eq)
    have "\<exists>j. i + 1 \<le> j \<and> j < length s \<and> r = substring s a (Suc j) \<and> bal r = 0 \<and>
       (\<forall>k. a < k \<and> k \<le> j \<longrightarrow> 0 < bal (substring s a k))"
      using "1.IH"[OF lt d'_def False rec] "1.prems"(2) d'bal pos inv by simp
    then show ?thesis by (metis Suc_eq_plus1 Suc_leD)
  qed
qed

lemma braceLoop_None:
  "braceLoop s a i d = None \<Longrightarrow> a \<le> i \<Longrightarrow> d = bal (substring s a i) \<Longrightarrow>
   i < k \<Longrightarrow> k \<le> length s \<Longrightarrow> bal (substring s a k) \<noteq> 0"
proof (induction s a i d arbitrary: rule: braceLoop.induct)
  case (1 s a i d)
  have lt: "i < length s" using "1.prems"(4,5) by simp
  define d' where "d' = (if s ! i = 123 then d + 1 else if s ! i = 125 then d - 1 else d)"
  have d'bal: "d' = bal (substring s a (Suc i))"
    using "1.prems"(2,3) lt by (simp add: d'_def substring_Suc bal_snoc)
  from "1.prems"(1) lt have nz: "d' \<noteq> 0"
    by (subst (asm) braceLoop.simps) (auto simp: d'_def Let_def split: if_splits)
  from "1.prems"(1) lt nz have rec: "braceLoop s a (i + 1) d' = None"
    by (subst (asm) braceLoop.simps) (simp add: d'_def Let_def)
  show ?case
  proof (cases "k = Suc i")
    case True
    then show ?thesis using nz d'bal by simp
  next
    case False
    then have "i + 1 < k" using "1.prems"(4) by simp
    then show ?thesis
      using "1.IH"[OF lt d'_def nz rec] "1.prems"(2,5) d'bal by simp
  qed
qed


lemma bal_pos_iff: "0 < bal p \<longleftrightarrow> count_list p 125 < count_list p 123"
  by (simp add: bal_def)

lemma bal_zero_iff: "bal p = 0 \<longleftrightarrow> count_list p 123 = count_list p 125"
  by (simp add: bal_def)

lemma strict_prefix_substring:
  assumes "strict_prefix p (substring s a (Suc j))" "p \<noteq> []" "a \<le> j" "j < length s"
  shows "\<exists>k. a < k \<and> k \<le> j \<and> p = substring s a k"
proof -
  from assms(1) have pre: "prefix p (take (Suc j - a) (drop a s))" and ne: "p \<noteq> take (Suc j - a) (drop a s)"
    by (auto simp: substring_def strict_prefix_def)
  have len: "length (take (Suc j - a) (drop a s)) = Suc j - a" using assms(3,4) by simp
  from pre have p: "p = take (length p) (take (Suc j - a) (drop a s))"
    by (metis append_eq_conv_conj prefixE)
  have "length p \<le> Suc j - a" using pre len by (metis prefix_length_le)
  moreover have "length p \<noteq> Suc j - a" using p ne len by (metis take_all order_refl)
  ultimately have lp: "length p < Suc j - a" by simp
  have "p = take (length p) (drop a s)" using p lp by (simp add: min_def)
  then have "p = substring s a (a + length p)" by (simp add: substring_def)
  moreover have "a < a + length p" using assms(2) by simp
  moreover have "a + length p \<le> j" using lp by simp
  ultimately show ?thesis by blast
qed

text \<open>
  Claim C10. When \<open>extractJsonObject(s, i)\<close> returns a string, the string is the part
  of \<open>s\<close> that starts at index \<open>i\<close>, it begins with an opening brace (code unit 123)
  and ends with a closing brace (125), it has as many opening as closing braces, and
  every non-empty proper prefix of it has more opening than closing braces. The
  result is \<open>null\<close> exactly when \<open>s[i]\<close> is not an opening brace (or \<open>i\<close> is outside \<open>s\<close>) or
  no span that starts at \<open>i\<close> brings the depth back to zero.
\<close>

theorem extractJsonObject_balanced:
  "(\<forall>r. extractJsonObject s i = Some r \<longrightarrow>
      0 \<le> i \<and> (\<exists>n. r = take n (drop (nat i) s)) \<and>
      r \<noteq> [] \<and> hd r = 123 \<and> last r = 125 \<and>
      count_list r 123 = count_list r 125 \<and>
      (\<forall>p. strict_prefix p r \<and> p \<noteq> [] \<longrightarrow> count_list p 125 < count_list p 123)) \<and>
   (extractJsonObject s i = None \<longleftrightarrow>
      i < 0 \<or> int (length s) \<le> i \<or> s ! nat i \<noteq> 123 \<or>
      (\<forall>k. nat i < k \<and> k \<le> length s \<longrightarrow>
         count_list (substring s (nat i) k) 123 \<noteq> count_list (substring s (nat i) k) 125))"
proof (intro conjI allI impI)
  fix r
  assume some: "extractJsonObject s i = Some r"
  define a where "a = nat i"
  from some have rng: "0 \<le> i" "a < length s" and first: "s ! a = 123"
    and loop: "braceLoop s a a 0 = Some r"
    by (auto simp: extractJsonObject_def a_def split: if_splits)
  from braceLoop_Some[OF loop] rng first
  obtain j where j: "a \<le> j" "j < length s" "r = substring s a (Suc j)" "bal r = 0"
    and inv: "\<forall>k. a < k \<and> k \<le> j \<longrightarrow> 0 < bal (substring s a k)"
    by auto
  show "0 \<le> i" by fact
  show "\<exists>n. r = take n (drop (nat i) s)"
    using j(3) by (auto simp: substring_def a_def)
  have len: "length r = Suc j - a" using j by (simp add: substring_def)
  show ne: "r \<noteq> []" using len j(1) by auto
  have "hd r = s ! a" using j rng by (simp add: substring_def hd_take hd_drop_conv_nth Suc_diff_le)
  then show "hd r = 123" using first by simp
  have "a \<noteq> j"
  proof
    assume "a = j"
    then have "r = [s ! a]" using j rng by (simp add: substring_Suc)
    then show False using j(4) first by (simp add: bal_def)
  qed
  then have "a < j" using j(1) by simp
  then have "0 < bal (substring s a j)" using inv by simp
  moreover have "r = substring s a j @ [s ! j]" using j by (simp add: substring_Suc)
  ultimately have "s ! j = 125" using j(4) by (auto simp: bal_snoc split: if_splits)
  then show "last r = 125" using \<open>r = substring s a j @ [s ! j]\<close> by simp
  show "count_list r 123 = count_list r 125" using j(4) by (simp add: bal_zero_iff)
  fix p
  assume "strict_prefix p r \<and> p \<noteq> []"
  then obtain k where "a < k" "k \<le> j" "p = substring s a k"
    using strict_prefix_substring[of p s a j] j by auto
  then show "count_list p 125 < count_list p 123" using inv by (simp add: bal_pos_iff)
next
  show "extractJsonObject s i = None \<longleftrightarrow>
      i < 0 \<or> int (length s) \<le> i \<or> s ! nat i \<noteq> 123 \<or>
      (\<forall>k. nat i < k \<and> k \<le> length s \<longrightarrow>
         count_list (substring s (nat i) k) 123 \<noteq> count_list (substring s (nat i) k) 125)"
  proof (cases "i < 0 \<or> int (length s) \<le> i \<or> s ! nat i \<noteq> 123")
    case True
    then show ?thesis by (auto simp: extractJsonObject_def)
  next
    case False
    then have eq: "extractJsonObject s i = braceLoop s (nat i) (nat i) 0"
      by (simp add: extractJsonObject_def)
    from False have rng: "nat i < length s" and first: "s ! nat i = 123" by auto
    show ?thesis
    proof (cases "braceLoop s (nat i) (nat i) 0")
      case None
      then have "\<forall>k. nat i < k \<and> k \<le> length s \<longrightarrow> bal (substring s (nat i) k) \<noteq> 0"
        using braceLoop_None[OF None] by simp
      then show ?thesis using eq None by (simp add: bal_zero_iff)
    next
      case (Some r)
      from braceLoop_Some[OF Some] rng first
      obtain j where j: "nat i \<le> j" "j < length s" "r = substring s (nat i) (Suc j)" "bal r = 0"
        by auto
      then have "nat i < Suc j \<and> Suc j \<le> length s \<and> bal (substring s (nat i) (Suc j)) = 0"
        by simp
      then show ?thesis using eq Some False unfolding bal_zero_iff by auto
    qed
  qed
qed

text \<open>The theorem at \<open>x{a{b}c}d\<close> from index 1, at an unclosed brace and at a text
  without a brace.\<close>

lemmas ev_json = extractJsonObject_def braceLoop.simps substring_def str_def

theorem extractJsonObject_balanced_witness:
  "extractJsonObject (str ''x{a{b}c}d'') 1 = Some (str ''{a{b}c}'') \<and>
   hd (str ''{a{b}c}'') = 123 \<and> last (str ''{a{b}c}'') = 125 \<and>
   count_list (str ''{a{b}c}'') 123 = count_list (str ''{a{b}c}'') 125 \<and>
   count_list (str ''{a{b}'') 125 < count_list (str ''{a{b}'') 123 \<and>
   extractJsonObject (str ''{unclosed'') 0 = None \<and>
   extractJsonObject (str ''hello'') 0 = None"
proof -
  have e: "extractJsonObject (str ''x{a{b}c}d'') 1 = Some (str ''{a{b}c}'')"
    by (simp add: ev_json)
  have p: "strict_prefix (str ''{a{b}'') (str ''{a{b}c}'') \<and> str ''{a{b}'' \<noteq> []"
    by (simp add: str_def strict_prefix_def)
  have n1: "extractJsonObject (str ''{unclosed'') 0 = None"
    by (simp add: ev_json)
  have n2: "extractJsonObject (str ''hello'') 0 = None"
    by (simp add: ev_json)
  from extractJsonObject_balanced[of "str ''x{a{b}c}d''" 1] e p n1 n2
  show ?thesis by auto
qed
section \<open>The patterns of extractVideoId\<close>

lemma in_idClass: "in_class idClass = isIdChar"
  by (rule ext) (auto simp: idClass_def isIdChar_def)

lemma cat_Nil [simp]: "cat [] = Eps"
  and cat_Cons [simp]: "cat (r # rs) = Seq r (cat rs)"
  by (simp_all add: cat_def)

lemma concat_map_concat:
  "concat (map f (concat xss)) = concat (map (\<lambda>xs. concat (map f xs)) xss)"
  by (induction xss) simp_all

lemma ms_cat_append: "ms (cat (rs @ rs')) st = concat (map (ms (cat rs')) (ms (cat rs) st))"
proof (induction rs arbitrary: st)
  case Nil
  then show ?case by simp
next
  case (Cons r rs)
  have IH: "ms (cat (rs @ rs')) = (\<lambda>s1. concat (map (ms (cat rs')) (ms (cat rs) s1)))"
    by (rule ext) (rule Cons.IH)
  show ?case
    by (simp add: IH concat_map_concat comp_def)
qed

lemma take_takeWhile_all: "k \<le> length (takeWhile P s) \<Longrightarrow> list_all P (take k s)"
proof (induction s arbitrary: k)
  case Nil
  then show ?case by simp
next
  case (Cons x xs)
  then show ?case by (cases k) (auto split: if_splits)
qed

lemma run_take_class: "k \<le> run c s \<Longrightarrow> list_all (in_class c) (take k s)"
  unfolding run_def by (rule take_takeWhile_all)

lemma run_all: "list_all (in_class c) s \<Longrightarrow> run c s = length s"
proof -
  assume "list_all (in_class c) s"
  then have "takeWhile (in_class c) s = s" by (simp add: list_all_iff)
  then show ?thesis by (simp only: run_def)
qed

lemma ms_Cap_Plus:
  assumes "m \<in> set (ms (Cap i (Plus c)) st)"
  shows "\<exists>g. caps m i = Some g \<and> g \<noteq> [] \<and> list_all (in_class c) g"
proof -
  from assms have "m \<in> (\<lambda>st'. st'\<lparr>caps := (caps st')(i \<mapsto> take (length (rest st) - length (rest st')) (rest st))\<rparr>)
      ` set (ms (Plus c) st)"
    by (simp only: ms.simps set_map)
  then obtain st1 where st1: "st1 \<in> set (ms (Plus c) st)"
    and m: "m = st1\<lparr>caps := (caps st1)(i \<mapsto> take (length (rest st) - length (rest st1)) (rest st))\<rparr>"
    by blast
  from st1 obtain k where k: "1 \<le> k" "k \<le> run c (rest st)" "st1 = advance k st"
    unfolding set_ms_Plus by blast
  have kl: "k \<le> length (rest st)" using k(2) run_le_length[of c "rest st"] by simp
  then have "length (rest st) - length (rest st1) = k" using k(3) by simp
  then have g: "caps m i = Some (take k (rest st))" using m by simp
  moreover have "take k (rest st) \<noteq> []" using k(1) kl by auto
  moreover have "list_all (in_class c) (take k (rest st))" using k(2) by (rule run_take_class)
  ultimately show ?thesis by simp
qed

lemma url_pattern_group:
  assumes "m \<in> set (ms (cat (front @ [Cap i (Plus idClass)])) st)"
  shows "\<exists>g. caps m i = Some g \<and> g \<noteq> [] \<and> list_all isIdChar g"
proof -
  from assms obtain st1 where "m \<in> set (ms (cat [Cap i (Plus idClass)]) st1)"
    unfolding ms_cat_append by auto
  then have "m \<in> set (ms (Cap i (Plus idClass)) st1)"
    by (simp del: ms.simps(9))
  from ms_Cap_Plus[OF this] show ?thesis unfolding in_idClass .
qed

lemma bare_pattern_ms:
  "ms (cat [Bol, Cap i (Rep 11 idClass), Eol]) st =
     (if pos st = 0 \<and> length (rest st) = 11 \<and> list_all isIdChar (rest st)
      then [(advance 11 st)\<lparr>caps := (caps st)(i \<mapsto> rest st)\<rparr>] else [])"
proof (cases "pos st = 0 \<and> length (rest st) = 11 \<and> list_all isIdChar (rest st)")
  case True
  then have "run idClass (rest st) = 11" using run_all[of idClass "rest st"]
    by (simp add: in_idClass)
  with True show ?thesis by simp
next
  case False
  have a: "list_all isIdChar (rest st)" if "11 \<le> run idClass (rest st)" "length (rest st) = 11"
    using run_take_class[of 11 idClass "rest st"] that by (simp add: in_idClass)
  have "ms (cat [Bol, Cap i (Rep 11 idClass), Eol]) st = []"
  proof (cases "pos st = 0 \<and> 11 \<le> run idClass (rest st)")
    case True
    with False a have "length (rest st) \<noteq> 11" by auto
    moreover have "11 \<le> length (rest st)" using True run_le_length[of idClass "rest st"] by simp
    ultimately have "drop 11 (rest st) \<noteq> []" by simp
    with True show ?thesis by simp
  next
    case False
    then show ?thesis by auto
  qed
  then show ?thesis unfolding if_not_P[OF False] .
qed

lemma search_Bol_later: "search (cat (Bol # rs)) (Suc p) s = None"
  by (induction s arbitrary: p) simp_all

lemma search_bare_pattern:
  "search (cat [Bol, Cap i (Rep 11 idClass), Eol]) 0 s =
     (if length s = 11 \<and> list_all isIdChar s
      then Some ([], (advance 11 (start_at 0 s))\<lparr>caps := [i \<mapsto> s]\<rparr>) else None)"
proof (cases s)
  case Nil
  then show ?thesis unfolding Nil search.simps bare_pattern_ms by simp
next
  case (Cons c cs)
  have "search (cat [Bol, Cap i (Rep 11 idClass), Eol]) (Suc 0) cs = None"
    by (rule search_Bol_later)
  then show ?thesis unfolding Cons search.simps bare_pattern_ms by simp
qed

lemma firstPattern_Some:
  "firstPattern url ps = Some g \<Longrightarrow>
   \<exists>p \<in> set ps. \<exists>m. match url p = Some m \<and> caps m 1 = Some g \<and> g \<noteq> []"
  by (induction ps) (auto split: option.splits if_splits)

lemma match_Some: "match s r = Some m \<Longrightarrow> \<exists>st. m \<in> set (ms r st)"
proof -
  assume "match s r = Some m"
  then obtain skipped where "search r 0 s = Some (skipped, m)"
    by (auto simp: match_def)
  from search_Some[OF this] show ?thesis by blast
qed

lemma patterns_eq:
  "patterns =
     [urlPattern (str ''youtu.be/''), urlPattern (str ''youtube.com/watch?v=''),
      urlPattern (str ''youtube.com/embed/''), urlPattern (str ''youtube.com/shorts/''),
      barePattern]"
  unfolding patterns_def urlPattern_def barePattern_def by (simp only: append_assoc append.simps)

lemma patterns_group:
  assumes "p \<in> set patterns" "match s p = Some m" "caps m 1 = Some g"
  shows "g \<noteq> [] \<and> list_all isIdChar g"
proof -
  from match_Some[OF assms(2)] obtain st where st: "m \<in> set (ms p st)" by blast
  from assms(1) consider (url) l where "p = urlPattern l" | (bare) "p = barePattern"
    unfolding patterns_eq by auto
  then show ?thesis
  proof cases
    case url
    from url_pattern_group[OF st[unfolded url urlPattern_def]] assms(3) show ?thesis by auto
  next
    case bare
    from st[unfolded bare barePattern_def bare_pattern_ms] assms(3) show ?thesis
      by (auto split: if_splits)
  qed
qed

lemma extractVideoId_chars:
  "extractVideoId s = Some g \<Longrightarrow> g \<noteq> [] \<and> list_all isIdChar g"
  unfolding extractVideoId_def
  using firstPattern_Some[of s patterns g] patterns_group[of _ s _ g] by blast

lemma needs_cat: "needs (cat rs) = (\<Union>r \<in> set rs. needs r)"
  by (induction rs) simp_all

lemma match_urlPattern_idchars:
  assumes "list_all isIdChar s" "\<exists>c \<in> set l. \<not> isIdChar c"
  shows "match s (urlPattern l) = None"
proof (cases "search (urlPattern l) 0 s")
  case None
  then show ?thesis by (simp add: match_def)
next
  case (Some x)
  from search_needs[OF Some] have "set l \<subseteq> set s"
    by (simp add: urlPattern_def needs_cat)
  with assms show ?thesis by (auto simp: list_all_iff)
qed

lemma match_barePattern:
  "match s barePattern =
     (if length s = 11 \<and> list_all isIdChar s
      then Some ((advance 11 (start_at 0 s))\<lparr>caps := [1 \<mapsto> s]\<rparr>) else None)"
  by (simp add: match_def barePattern_def search_bare_pattern del: cat_Cons)

lemma slash_not_id: "\<not> isIdChar 47"
  by (simp add: isIdChar_def)

lemma extractVideoId_idchars:
  assumes "list_all isIdChar s"
  shows "extractVideoId s = (if length s = 11 then Some s else None)"
proof -
  have u: "match s (urlPattern (str ''youtu.be/'')) = None"
    "match s (urlPattern (str ''youtube.com/watch?v='')) = None"
    "match s (urlPattern (str ''youtube.com/embed/'')) = None"
    "match s (urlPattern (str ''youtube.com/shorts/'')) = None"
    by (rule match_urlPattern_idchars[OF assms], rule bexI[of _ 47], rule slash_not_id,
        simp add: str_def)+
  show ?thesis
    unfolding extractVideoId_def patterns_eq using assms
    by (auto simp: u match_barePattern)
qed

lemma search_idchars_None:
  "list_all isIdChar v \<Longrightarrow> 47 \<in> needs r \<Longrightarrow> search r p v = None"
proof (cases "search r p v")
  case (Some x)
  assume "list_all isIdChar v" "47 \<in> needs r"
  with search_needs[OF Some] slash_not_id show ?thesis by (auto simp: list_all_iff)
qed simp

lemma ms_Lit_iff: "st' \<in> set (ms (Lit l) st) \<longleftrightarrow> prefix l (rest st) \<and> st' = advance (length l) st"
  by auto

lemma in_ms_cat_append:
  "m \<in> set (ms (cat (rs @ rs')) st) \<longleftrightarrow>
   (\<exists>st1 \<in> set (ms (cat rs) st). m \<in> set (ms (cat rs') st1))"
  unfolding ms_cat_append by (simp only: set_concat set_map) blast

lemma ms_cat_single: "ms (cat [r]) st = ms r st"
proof -
  have "ms Eps = (\<lambda>x. [x])" by (rule ext) simp
  then have "ms (cat [r]) st = concat (map (\<lambda>x. [x]) (ms r st))"
    by (simp only: cat_Cons cat_Nil ms.simps)
  then show ?thesis by simp
qed

lemma match_urlPattern_shape:
  assumes "match s (urlPattern l) = Some m"
  shows "\<exists>pre c post. s = pre @ l @ c # post \<and> isIdChar c"
proof -
  from assms obtain skipped where "search (urlPattern l) 0 s = Some (skipped, m)"
    by (auto simp: match_def)
  from search_Some[OF this] obtain k where k: "k \<le> length s"
    and m: "m \<in> set (ms (urlPattern l) (start_at k (drop k s)))" by auto
  obtain st2 where st12: "st2 \<in> set (ms (cat (urlFront @ [Lit l])) (start_at k (drop k s)))"
    and m2: "m \<in> set (ms (cat [Cap 1 (Plus idClass)]) st2)"
    using m[unfolded urlPattern_def in_ms_cat_append] by blast
  obtain st1 where st1: "st1 \<in> set (ms (cat urlFront) (start_at k (drop k s)))"
    and st2: "st2 \<in> set (ms (cat [Lit l]) st1)"
    using st12[unfolded in_ms_cat_append] by blast
  from ms_advance[OF st1] obtain k1 where k1: "rest st1 = drop k1 (drop k s)" by auto
  from st2 have "st2 \<in> set (ms (Lit l) st1)" unfolding ms_cat_single .
  then have pre: "prefix l (rest st1)" and st2eq: "rest st2 = drop (length l) (rest st1)"
    unfolding ms_Lit_iff by simp_all
  from m2 have "m \<in> set (ms (Cap 1 (Plus idClass)) st2)" unfolding ms_cat_single .
  then have "m \<in> (\<lambda>st'. st'\<lparr>caps := (caps st')(1 \<mapsto> take (length (rest st2) - length (rest st')) (rest st2))\<rparr>)
      ` set (ms (Plus idClass) st2)"
    by (simp only: ms.simps set_map)
  then obtain st3 where "st3 \<in> set (ms (Plus idClass) st2)" by blast
  then obtain j where j: "1 \<le> j" "j \<le> run idClass (rest st2)"
    unfolding set_ms_Plus by blast
  then obtain c post where cp: "rest st2 = c # post"
    using run_le_length[of idClass "rest st2"] by (cases "rest st2") auto
  from j(1,2) cp have "isIdChar c"
    using run_take_class[of 1 idClass "rest st2"] by (simp add: in_idClass)
  moreover have "s = take (k + k1) s @ l @ c # post"
  proof -
    obtain zs where zs: "rest st1 = l @ zs" using pre by (auto simp: prefix_def)
    then have "rest st2 = zs" using st2eq by simp
    then have "rest st1 = l @ c # post" using zs cp by simp
    moreover have "rest st1 = drop (k + k1) s" using k1 by (simp add: add.commute)
    ultimately have "drop (k + k1) s = l @ c # post" by simp
    then show ?thesis using append_take_drop_id[of "k + k1" s] by simp
  qed
  ultimately show ?thesis by blast
qed

lemma not_urlShaped_no_match:
  assumes "\<not> urlShaped s"
    and "l \<in> {str ''youtu.be/'', str ''youtube.com/watch?v='',
               str ''youtube.com/embed/'', str ''youtube.com/shorts/''}"
  shows "match s (urlPattern l) = None"
proof (cases "match s (urlPattern l)")
  case (Some m)
  from match_urlPattern_shape[OF Some] assms show ?thesis
    unfolding urlShaped_def by blast
qed simp

lemma extractVideoId_no_shape:
  assumes "length s \<noteq> 11" "\<not> urlShaped s"
  shows "extractVideoId s = None"
  unfolding extractVideoId_def patterns_eq
  using assms(1) by (simp add: not_urlShaped_no_match[OF assms(2)] match_barePattern)

lemmas ev_shape = extractVideoId_def patterns_def urlFront_def match_def
  str_def start_at_def advance_def run_def in_idClass isIdChar_def upt_conv_Cons

lemma extractVideoId_url:
  assumes v: "length v = 11" "list_all isIdChar v"
  shows "\<forall>scheme \<in> {[], str ''http://'', str ''https://''}.
         \<forall>www \<in> {[], str ''www.''}.
         \<forall>base \<in> {str ''youtu.be/'', str ''youtube.com/watch?v='',
                     str ''youtube.com/embed/'', str ''youtube.com/shorts/''}.
           extractVideoId (scheme @ www @ base @ v) = Some v"
proof -
  have tw: "takeWhile isIdChar v = v" using v(2) by (simp add: list_all_iff)
  have ne: "v \<noteq> []" using v(1) by auto
  have s: "\<And>r p. 47 \<in> needs r \<Longrightarrow> search r p v = None"
    using v(2) by (rule search_idchars_None)
  show ?thesis
    by (simp add: ev_shape tw ne s v(1))
qed

section \<open>A greedy quantifier in front of a literal\<close>

text \<open>When the literal starts with a character outside the class, only the longest run
  can be followed by the literal: the shorter ones leave a character of the class in
  front.\<close>

lemma run_nth: "k < run c s \<Longrightarrow> k < length s \<and> in_class c (s ! k)"
proof -
  assume k: "k < run c s"
  then have "k < length s" using run_le_length[of c s] by simp
  moreover have "takeWhile (in_class c) s ! k = s ! k"
    using k unfolding run_def by (rule takeWhile_nth)
  moreover have "takeWhile (in_class c) s ! k \<in> set (takeWhile (in_class c) s)"
    using k unfolding run_def by (rule nth_mem)
  ultimately show ?thesis using set_takeWhileD by fastforce
qed

lemma Lit_fails_in_run:
  assumes "\<not> in_class c y" and f: "\<And>x. rest (f x) = rest x" and "k < run c (rest st)"
  shows "ms (Seq (Lit (y # l)) r) (f (advance k st)) = []"
proof -
  from run_nth[OF assms(3)] have "k < length (rest st)" "in_class c (rest st ! k)" by auto
  then have "drop k (rest st) = (rest st ! k) # drop (Suc k) (rest st)" "rest st ! k \<noteq> y"
    using assms(1) by (auto simp: Cons_nth_drop_Suc)
  then have "\<not> prefix (y # l) (rest (f (advance k st)))" using f by simp
  then show ?thesis by simp
qed

lemma concat_map_rev_upt:
  assumes "\<And>k. k < n \<Longrightarrow> g k = []"
  shows "concat (map g (rev [0..<Suc n])) = g n"
proof -
  have "concat (map g (rev [0..<n])) = []" using assms by (induction n) auto
  then show ?thesis by simp
qed

lemma concat_map_rev_upt1:
  assumes "\<And>k. k < n \<Longrightarrow> g k = []"
  shows "concat (map g (rev [1..<Suc n])) = (if 1 \<le> n then g n else [])"
proof -
  have "concat (map g (rev [1..<n])) = []" using assms by (induction n) auto
  then show ?thesis by simp
qed

lemma ms_Star_Lit:
  assumes "\<not> in_class c y"
  shows "ms (Seq (Star c) (Seq (Lit (y # l)) r)) st =
         ms (Seq (Lit (y # l)) r) (advance (run c (rest st)) st)"
proof -
  have "ms (Seq (Star c) (Seq (Lit (y # l)) r)) st =
        concat (map (\<lambda>k. ms (Seq (Lit (y # l)) r) (advance k st)) (rev [0..<Suc (run c (rest st))]))"
    by (simp only: ms.simps(3,8) map_map comp_def)
  also have "\<dots> = ms (Seq (Lit (y # l)) r) (advance (run c (rest st)) st)"
    by (rule concat_map_rev_upt) (rule Lit_fails_in_run[OF assms, where f = "\<lambda>x. x"], simp_all)
  finally show ?thesis .
qed

lemma ms_Plus_Lit:
  assumes "\<not> in_class c y"
  shows "ms (Seq (Plus c) (Seq (Lit (y # l)) r)) st =
         (if 1 \<le> run c (rest st)
          then ms (Seq (Lit (y # l)) r) (advance (run c (rest st)) st) else [])"
proof -
  have "ms (Seq (Plus c) (Seq (Lit (y # l)) r)) st =
        concat (map (\<lambda>k. ms (Seq (Lit (y # l)) r) (advance k st)) (rev [1..<Suc (run c (rest st))]))"
    by (simp only: ms.simps(4,8) map_map comp_def)
  also have "\<dots> = (if 1 \<le> run c (rest st)
          then ms (Seq (Lit (y # l)) r) (advance (run c (rest st)) st) else [])"
    by (rule concat_map_rev_upt1) (rule Lit_fails_in_run[OF assms, where f = "\<lambda>x. x"], simp_all)
  finally show ?thesis .
qed

lemma ms_CapStar_Lit:
  assumes "\<not> in_class c y"
  shows "ms (Seq (Cap i (Star c)) (Seq (Lit (y # l)) r)) st =
         ms (Seq (Lit (y # l)) r)
           ((advance (run c (rest st)) st)\<lparr>caps := (caps st)(i \<mapsto> take (run c (rest st)) (rest st))\<rparr>)"
proof -
  let ?f = "\<lambda>st'. st'\<lparr>caps := (caps st')(i \<mapsto> take (length (rest st) - length (rest st')) (rest st))\<rparr>"
  have "ms (Seq (Cap i (Star c)) (Seq (Lit (y # l)) r)) st =
        concat (map (\<lambda>k. ms (Seq (Lit (y # l)) r) (?f (advance k st))) (rev [0..<Suc (run c (rest st))]))"
    by (simp only: ms.simps(3,8,9) map_map comp_def)
  also have "\<dots> = ms (Seq (Lit (y # l)) r) (?f (advance (run c (rest st)) st))"
    by (rule concat_map_rev_upt) (rule Lit_fails_in_run[OF assms, where f = ?f], simp_all)
  also have "?f (advance (run c (rest st)) st) =
      (advance (run c (rest st)) st)\<lparr>caps := (caps st)(i \<mapsto> take (run c (rest st)) (rest st))\<rparr>"
    using run_le_length[of c "rest st"] by simp
  finally show ?thesis .
qed

lemma ms_Lit_Seq:
  "ms (Seq (Lit l) r) st = (if prefix l (rest st) then ms r (advance (length l) st) else [])"
  by simp

lemma ms_Opt_Seq: "ms (Seq (Opt g) r) st = concat (map (ms r) (ms g st)) @ ms r st"
  by simp

section \<open>The match reported at a position\<close>

text \<open>A sequence reports the match of its continuation after the first match of its
  front, whenever the continuation matches there: no backtracking takes place.\<close>

lemma run_blank_stop:
  "list_all isWhiteSpace ws \<Longrightarrow> \<not> isWhiteSpace y \<Longrightarrow> run (OneOf [Space]) (ws @ y # ys) = length ws"
proof -
  assume "list_all isWhiteSpace ws" "\<not> isWhiteSpace y"
  then have "takeWhile (in_class (OneOf [Space])) (ws @ y # ys) = ws"
    by (subst takeWhile_append2) (auto simp: list_all_iff)
  then show ?thesis by (simp only: run_def)
qed

lemma run_NoneOf_stop:
  "y \<notin> set a \<Longrightarrow> run (NoneOf [Ch y]) (a @ y # ys) = length a"
proof -
  assume "y \<notin> set a"
  then have "takeWhile (in_class (NoneOf [Ch y])) (a @ y # ys) = a"
    by (subst takeWhile_append2) auto
  then show ?thesis by (simp only: run_def)
qed

lemma prefix_stop:
  assumes "x \<notin> set l" "prefix l (e @ x # t)"
  shows "prefix l e"
proof -
  from assms(2) consider "prefix l e" | us where "l = e @ us" "prefix us (x # t)"
    by (auto simp: prefix_append)
  then show ?thesis
  proof cases
    case 2
    with assms(1) have "us = []" by (cases us) auto
    with 2 show ?thesis by simp
  qed
qed

lemma first_match_Seq:
  "first_match r1 st = Some m1 \<Longrightarrow> first_match r2 m1 = Some m2 \<Longrightarrow> first_match (Seq r1 r2) st = Some m2"
proof -
  assume "first_match r1 st = Some m1" "first_match r2 m1 = Some m2"
  then obtain o1 o2 where "ms r1 st = m1 # o1" "ms r2 m1 = m2 # o2"
    by (auto simp: first_match_def split: list.splits)
  then show ?thesis by (simp add: first_match_def)
qed

lemma first_match_Eps: "first_match Eps st = Some st"
  by (simp add: first_match_def)

lemma first_match_Lit:
  "rest st = l @ xs \<Longrightarrow> first_match (Lit l) st = Some (st\<lparr>pos := pos st + length l, rest := xs\<rparr>)"
  by (simp add: first_match_def advance_def)

lemma rev_upt_Suc: "a \<le> n \<Longrightarrow> rev [a..<Suc n] = n # rev [a..<n]"
  by simp

lemma first_match_Plus:
  "1 \<le> run c (rest st) \<Longrightarrow> first_match (Plus c) st = Some (advance (run c (rest st)) st)"
  by (simp add: first_match_def rev_upt_Suc del: upt_Suc)

lemma first_match_Star: "first_match (Star c) st = Some (advance (run c (rest st)) st)"
  by (simp add: first_match_def rev_upt_Suc del: upt_Suc)

lemma first_match_Cap:
  "first_match r st = Some m \<Longrightarrow>
   first_match (Cap i r) st =
     Some (m\<lparr>caps := (caps m)(i \<mapsto> take (length (rest st) - length (rest m)) (rest st))\<rparr>)"
  by (auto simp: first_match_def split: list.splits)

lemma first_match_Opt: "first_match g st = Some m \<Longrightarrow> first_match (Opt g) st = Some m"
  by (auto simp: first_match_def split: list.splits)

lemma first_match_Opt_skip: "ms g st = [] \<Longrightarrow> first_match (Opt g) st = Some st"
  by (simp add: first_match_def)

lemma first_match_blank:
  assumes "rest st = ws @ y # xs" "blankRun ws" "\<not> isWhiteSpace y"
  shows "first_match (Plus (OneOf [Space])) st = Some (st\<lparr>pos := pos st + length ws, rest := y # xs\<rparr>)"
proof -
  have r: "run (OneOf [Space]) (ws @ y # xs) = length ws"
    using assms(2,3) by (intro run_blank_stop) (simp_all add: blankRun_def)
  have "1 \<le> length ws" using assms(2) by (cases ws) (simp_all add: blankRun_def)
  then have "1 \<le> run (OneOf [Space]) (rest st)" by (simp only: assms(1) r)
  from first_match_Plus[OF this] show ?thesis by (simp add: assms(1) r advance_def)
qed

lemma first_match_until:
  assumes "rest st = a @ y # xs" "y \<notin> set a"
  shows "first_match (Star (NoneOf [Ch y])) st = Some (st\<lparr>pos := pos st + length a, rest := y # xs\<rparr>)"
proof -
  have r: "run (NoneOf [Ch y]) (a @ y # xs) = length a"
    using assms(2) by (rule run_NoneOf_stop)
  show ?thesis by (simp add: first_match_Star assms(1) r advance_def)
qed

lemma first_match_value:
  assumes "rest st = a @ (y # l) @ xs" "y \<notin> set a"
  shows "first_match (cat [Cap i (Star (NoneOf [Ch y])), Lit (y # l)]) st =
         Some (st\<lparr>pos := pos st + length a + length (y # l), rest := xs, caps := (caps st)(i \<mapsto> a)\<rparr>)"
proof -
  from assms(1) have r: "rest st = a @ y # l @ xs" by simp
  from first_match_until[OF r assms(2)]
  have "first_match (Cap i (Star (NoneOf [Ch y]))) st =
      Some (st\<lparr>pos := pos st + length a, rest := y # l @ xs, caps := (caps st)(i \<mapsto> a)\<rparr>)"
    by (simp add: first_match_Cap r)
  moreover have "first_match (cat [Lit (y # l)]) (st\<lparr>pos := pos st + length a, rest := y # l @ xs, caps := (caps st)(i \<mapsto> a)\<rparr>) =
      Some (st\<lparr>pos := pos st + length a + length (y # l), rest := xs, caps := (caps st)(i \<mapsto> a)\<rparr>)"
    by (simp add: first_match_def advance_def)
  ultimately show ?thesis by (simp only: cat_Cons first_match_Seq)
qed

lemma group_absent:
  assumes "\<not> isWhiteSpace y2" "62 \<notin> set (y2 # r2)"
    and "takeWhile isWhiteSpace extra = [] \<or> \<not> prefix (y2 # r2) (dropWhile isWhiteSpace extra)"
    and "rest st = extra @ 62 # others"
  shows "ms (Seq (Plus (OneOf [Space])) (Seq (Lit (y2 # r2)) r)) st = []"
proof -
  have c: "in_class (OneOf [Space]) = isWhiteSpace" by (rule ext) simp
  have nw: "\<not> isWhiteSpace 62" by (simp add: isWhiteSpace_def)
  have tw: "takeWhile isWhiteSpace (extra @ 62 # others) = takeWhile isWhiteSpace extra"
    using nw by (rule takeWhile_tail)
  have n: "\<not> in_class (OneOf [Space]) y2" using assms(1) by simp
  have r: "run (OneOf [Space]) (rest st) = length (takeWhile isWhiteSpace extra)"
    unfolding run_def c assms(4) tw by (rule refl)
  show ?thesis
  proof (cases "takeWhile isWhiteSpace extra = []")
    case True
    then have "run (OneOf [Space]) (rest st) = 0" by (simp only: r list.size)
    then show ?thesis unfolding ms_Plus_Lit[OF n] by simp
  next
    case False
    with assms(3) have np: "\<not> prefix (y2 # r2) (dropWhile isWhiteSpace extra)" by blast
    have dd: "drop (length (takeWhile isWhiteSpace extra)) (extra @ 62 # others) =
              dropWhile isWhiteSpace (extra @ 62 # others)"
      unfolding tw[symmetric] by (rule dropWhile_eq_drop[symmetric])
    have "\<not> prefix (y2 # r2) (dropWhile isWhiteSpace (extra @ 62 # others))"
    proof (cases "\<forall>x \<in> set extra. isWhiteSpace x")
      case True
      then have "dropWhile isWhiteSpace (extra @ 62 # others) = 62 # others"
        using nw by (simp add: dropWhile_append)
      then show ?thesis using assms(2) by simp
    next
      case False
      then obtain x where "x \<in> set extra" "\<not> isWhiteSpace x" by blast
      then have "dropWhile isWhiteSpace (extra @ 62 # others) = dropWhile isWhiteSpace extra @ 62 # others"
        by (rule dropWhile_append1)
      then show ?thesis using prefix_stop[OF assms(2), of "dropWhile isWhiteSpace extra" others] np
        by (simp only:) blast
    qed
    then have "\<not> prefix (y2 # r2) (rest (advance (run (OneOf [Space]) (rest st)) st))"
      unfolding rest_advance r[unfolded assms(4)] assms(4) dd .
    then have "ms (Seq (Lit (y2 # r2)) r) (advance (run (OneOf [Space]) (rest st)) st) = []"
      unfolding ms_Lit_Seq by (simp only: if_False)
    then show ?thesis unfolding ms_Plus_Lit[OF n] by (simp only: if_cancel)
  qed
qed

lemma first_match_cat: 
  "first_match r st = Some m1 \<Longrightarrow> first_match (cat rs) m1 = Some m2 \<Longrightarrow> first_match (cat (r # rs)) st = Some m2"
  by (simp add: first_match_Seq)

lemma first_match_cat_append:
  "first_match (cat rs) st = Some m1 \<Longrightarrow> first_match (cat rs') m1 = Some m2 \<Longrightarrow>
   first_match (cat (rs @ rs')) st = Some m2"
proof -
  assume "first_match (cat rs) st = Some m1" "first_match (cat rs') m1 = Some m2"
  then obtain o1 o2 where "ms (cat rs) st = m1 # o1" "ms (cat rs') m1 = m2 # o2"
    by (auto simp: first_match_def split: list.splits)
  then show ?thesis by (simp add: first_match_def ms_cat_append)
qed

lemma first_match_Seq_Eps: "first_match r st = Some m \<Longrightarrow> first_match (Seq r Eps) st = Some m"
  by (rule first_match_Seq[OF _ first_match_Eps])

lemma tagFront_match:
  assumes "tagOk (y2 # r2) (ws1, a, d, extra)" "\<not> isWhiteSpace y1" "\<not> isWhiteSpace y2" "62 \<notin> set (y2 # r2)"
  shows "first_match (cat (tagFront name (y1 # r1) (y2 # r2)))
           (start_at p (openingTag name (y1 # r1) (y2 # r2) (ws1, a, d, extra) @ tail)) =
         Some \<lparr>pos = p + length (openingTag name (y1 # r1) (y2 # r2) (ws1, a, d, extra)), rest = tail,
               caps = (case d of None \<Rightarrow> [1 \<mapsto> a] | Some (ws2, dv) \<Rightarrow> [1 \<mapsto> a, 2 \<mapsto> dv])\<rparr>"
proof -
  define G where "G = (case d of None \<Rightarrow> [] | Some (ws2, dv) \<Rightarrow> ws2 @ (y2 # r2) @ dv @ [34])"
  define c4 :: "nat \<rightharpoonup> jstring" where "c4 = (case d of None \<Rightarrow> [1 \<mapsto> a] | Some (ws2, dv) \<Rightarrow> [1 \<mapsto> a, 2 \<mapsto> dv])"
  let ?l1 = "y1 # r1"
  let ?g = "cat [Plus (OneOf [Space]), Lit (y2 # r2), Cap 2 (Star (NoneOf [Ch 34])), Lit [34]]"
  from assms(1) have ok: "blankRun ws1" "34 \<notin> set a" "62 \<notin> set extra"
    by (simp_all add: tagOk_def)
  define s0 where "s0 = start_at p (name @ ws1 @ ?l1 @ a @ 34 # G @ extra @ 62 # tail)"
  define s1 where "s1 = \<lparr>pos = p + length name, rest = ws1 @ ?l1 @ a @ 34 # G @ extra @ 62 # tail, caps = Map.empty\<rparr>"
  define s2 where "s2 = \<lparr>pos = p + length name + length ws1, rest = ?l1 @ a @ 34 # G @ extra @ 62 # tail, caps = Map.empty\<rparr>"
  define s3 where "s3 = \<lparr>pos = p + length name + length ws1 + length ?l1, rest = a @ 34 # G @ extra @ 62 # tail, caps = Map.empty\<rparr>"
  define s4 where "s4 = \<lparr>pos = p + length name + length ws1 + length ?l1 + length a + 1, rest = G @ extra @ 62 # tail, caps = [1 \<mapsto> a]\<rparr>"
  define s5 where "s5 = \<lparr>pos = p + length name + length ws1 + length ?l1 + length a + 1 + length G, rest = extra @ 62 # tail, caps = c4\<rparr>"
  define s6 where "s6 = \<lparr>pos = p + length name + length ws1 + length ?l1 + length a + 1 + length G + length extra + 1, rest = tail, caps = c4\<rparr>"
  have m1: "first_match (Lit name) s0 = Some s1"
    using first_match_Lit[of s0 name] by (simp add: s0_def s1_def start_at_def)
  have m2: "first_match (Plus (OneOf [Space])) s1 = Some s2"
    using first_match_blank[of s1 ws1 y1, OF _ ok(1) assms(2)] by (simp add: s1_def s2_def)
  have m3: "first_match (Lit ?l1) s2 = Some s3"
    using first_match_Lit[of s2 ?l1] by (simp add: s2_def s3_def)
  have m4': "first_match (cat [Cap 1 (Star (NoneOf [Ch 34])), Lit [34]]) s3 = Some s4"
    using first_match_value[of s3 a 34 "[]" _ 1, OF _ ok(2)] by (simp add: s3_def s4_def)
  have m5: "first_match (Opt ?g) s4 = Some s5"
  proof (cases d)
    case None
    have "ms ?g s4 = []"
      unfolding cat_Cons using assms(1,3,4)
      by (intro group_absent[where extra = extra and others = tail])
         (simp_all add: tagOk_def None s4_def G_def)
    from first_match_Opt_skip[OF this] show ?thesis by (simp add: s4_def s5_def None G_def c4_def)
  next
    case (Some x)
    obtain ws2 dv where x: "x = (ws2, dv)" by (cases x)
    from assms(1) have ok2: "blankRun ws2" "34 \<notin> set dv" by (simp_all add: tagOk_def Some x)
    define t1 where "t1 = s4\<lparr>pos := pos s4 + length ws2, rest := (y2 # r2) @ dv @ 34 # extra @ 62 # tail\<rparr>"
    define t2 where "t2 = t1\<lparr>pos := pos t1 + length (y2 # r2), rest := dv @ 34 # extra @ 62 # tail\<rparr>"
    have g1: "first_match (Plus (OneOf [Space])) s4 = Some t1"
      using first_match_blank[of s4 ws2 y2, OF _ ok2(1) assms(3)] by (simp add: s4_def t1_def G_def Some x)
    have g2: "first_match (Lit (y2 # r2)) t1 = Some t2"
      using first_match_Lit[of t1 "y2 # r2"] by (simp add: t1_def t2_def)
    have g3: "first_match (cat [Cap 2 (Star (NoneOf [Ch 34])), Lit [34]]) t2 = Some s5"
      using first_match_value[of t2 dv 34 "[]" _ 2, OF _ ok2(2)]
      by (simp add: t2_def t1_def s4_def s5_def G_def c4_def Some x)
    from first_match_cat[OF g2 g3] have "first_match (cat [Lit (y2 # r2), Cap 2 (Star (NoneOf [Ch 34])), Lit [34]]) t1 = Some s5" .
    from first_match_cat[OF g1 this] have "first_match ?g s4 = Some s5" .
    then show ?thesis by (rule first_match_Opt)
  qed
  have m6: "first_match (cat [Star (NoneOf [Ch 62]), Lit [62]]) s5 = Some s6"
  proof -
    have "first_match (Star (NoneOf [Ch 62])) s5 = Some (s5\<lparr>pos := pos s5 + length extra, rest := 62 # tail\<rparr>)"
      using first_match_until[of s5 extra 62 tail, OF _ ok(3)] by (simp add: s5_def)
    moreover have "first_match (cat [Lit [62]]) (s5\<lparr>pos := pos s5 + length extra, rest := 62 # tail\<rparr>) = Some s6"
      by (simp add: first_match_def advance_def s5_def s6_def)
    ultimately show ?thesis by (rule first_match_cat)
  qed
  have "first_match (cat (Opt ?g # [Star (NoneOf [Ch 62]), Lit [62]])) s4 = Some s6"
    using m5 m6 by (rule first_match_cat)
  with m4' have "first_match (cat ([Cap 1 (Star (NoneOf [Ch 34])), Lit [34]] @ (Opt ?g # [Star (NoneOf [Ch 62]), Lit [62]]))) s3 = Some s6"
    by (rule first_match_cat_append)
  with m3 have "first_match (cat (Lit ?l1 # [Cap 1 (Star (NoneOf [Ch 34])), Lit [34]] @ (Opt ?g # [Star (NoneOf [Ch 62]), Lit [62]]))) s2 = Some s6"
    by (rule first_match_cat)
  with m2 have "first_match (cat (Plus (OneOf [Space]) # Lit ?l1 # [Cap 1 (Star (NoneOf [Ch 34])), Lit [34]] @ (Opt ?g # [Star (NoneOf [Ch 62]), Lit [62]]))) s1 = Some s6"
    by (rule first_match_cat)
  with m1 have "first_match (cat (Lit name # Plus (OneOf [Space]) # Lit ?l1 # [Cap 1 (Star (NoneOf [Ch 34])), Lit [34]] @ (Opt ?g # [Star (NoneOf [Ch 62]), Lit [62]]))) s0 = Some s6"
    by (rule first_match_cat)
  then have "first_match (cat (tagFront name ?l1 (y2 # r2))) s0 = Some s6"
    by (simp only: tagFront_def append.simps)
  moreover have "openingTag name ?l1 (y2 # r2) (ws1, a, d, extra) @ tail = name @ ws1 @ ?l1 @ a @ 34 # G @ extra @ 62 # tail"
    by (simp add: openingTag_def G_def split: option.splits)
  moreover have "length (openingTag name ?l1 (y2 # r2) (ws1, a, d, extra)) =
      length name + length ws1 + length ?l1 + length a + 1 + length G + length extra + 1"
    by (simp add: openingTag_def G_def split: option.splits)
  ultimately show ?thesis
    by (simp only: s0_def s6_def c4_def add.assoc)
qed

lemma concat_map_first:
  assumes "\<And>k. k < n \<Longrightarrow> g k = []" "n \<le> N" "g n = m # others"
  shows "\<exists>others'. concat (map g [0..<Suc N]) = m # others'"
proof -
  have "[0..<n + (Suc N - n)] = [0..<n] @ [n..<n + (Suc N - n)]"
    by (rule upt_add_eq_append) simp
  moreover have "n + (Suc N - n) = Suc N" using assms(2) by simp
  moreover have "[n..<Suc N] = n # [Suc n..<Suc N]" using assms(2) by (simp add: upt_conv_Cons)
  ultimately have sp: "[0..<Suc N] = [0..<n] @ n # [Suc n..<Suc N]" by (simp only:)
  have z: "concat (map g [0..<n]) = []" using assms(1) by (induction n) auto
  have "concat (map g [0..<Suc N]) = concat (map g [0..<n]) @ g n @ concat (map g [Suc n..<Suc N])"
    unfolding sp by (simp only: map_append concat_append list.map concat.simps)
  then have "concat (map g [0..<Suc N]) = m # others @ concat (map g [Suc n..<Suc N])"
    unfolding z assms(3) by (simp only: append.simps)
  then show ?thesis by blast
qed

lemma first_match_lazy:
  assumes "rest st = inner @ l @ xs" "\<And>k. k < length inner \<Longrightarrow> \<not> prefix l (drop k (inner @ l @ xs))"
    and "\<And>c. in_class cl c"
  shows "first_match (cat [Cap i (LazyStar cl), Lit l]) st =
         Some (st\<lparr>pos := pos st + length inner + length l, rest := xs, caps := (caps st)(i \<mapsto> inner)\<rparr>)"
proof -
  let ?f = "\<lambda>st'. st'\<lparr>caps := (caps st')(i \<mapsto> take (length (rest st) - length (rest st')) (rest st))\<rparr>"
  let ?g = "\<lambda>k. ms (cat [Lit l]) (?f (advance k st))"
  let ?m = "st\<lparr>pos := pos st + length inner + length l, rest := xs, caps := (caps st)(i \<mapsto> inner)\<rparr>"
  have "takeWhile (in_class cl) (rest st) = rest st" using assms(3) by simp
  then have N: "run cl (rest st) = length (rest st)" by (simp only: run_def)
  have ms: "ms (cat [Cap i (LazyStar cl), Lit l]) st = concat (map ?g [0..<Suc (run cl (rest st))])"
    by (simp only: cat_Cons ms.simps(5,8,9) map_map comp_def)
  have lo: "?g k = []" if "k < length inner" for k
    using assms(2)[OF that] by (simp add: assms(1))
  have at: "?g (length inner) = [?m]"
    by (simp add: assms(1) advance_def)
  have "length inner \<le> length (rest st)" by (simp add: assms(1))
  then have "length inner \<le> run cl (rest st)" by (simp only: N)
  from concat_map_first[of "length inner" ?g, OF lo this at] show ?thesis
    unfolding first_match_def ms by auto
qed

lemma no_prefix_across:
  assumes "\<not> sublist l pre" "s \<noteq> []" "hd s \<notin> set (tl l)" "k < length pre"
  shows "\<not> prefix l (drop k (pre @ s))"
proof
  assume pl: "prefix l (drop k (pre @ s))"
  define u where "u = drop k pre"
  have une: "u \<noteq> []" using assms(4) by (simp add: u_def)
  have d: "drop k (pre @ s) = u @ s" using assms(4) by (simp add: u_def)
  from pl d have plus: "prefix l (u @ s)" by simp
  show False
  proof (cases "prefix l u")
    case True
    then obtain zs where "u = l @ zs" by (auto simp: prefix_def)
    then have "pre = take k pre @ l @ zs" using u_def by (metis append_take_drop_id)
    then have "sublist l pre" unfolding sublist_def by blast
    with assms(1) show False by simp
  next
    case False
    with plus obtain us where us: "l = u @ us" "prefix us s"
      by (auto simp: prefix_append)
    with False have "us \<noteq> []" by auto
    with us(2) assms(2) have "hd us = hd s" by (cases us; cases s) (auto simp: prefix_def)
    moreover have "hd us \<in> set (tl l)" using \<open>us \<noteq> []\<close> us(1) une by (cases u) auto
    ultimately show False using assms(3) by simp
  qed
qed

lemma search_at_front: "first_match r (start_at p s) = Some m \<Longrightarrow> search r p s = Some ([], m)"
  by (cases s) (auto simp: first_match_def split: list.splits)

lemma search_skip:
  assumes "\<And>k. k < length pre \<Longrightarrow> ms r (start_at (p + k) (drop k (pre @ s))) = []"
  shows "search r p (pre @ s) =
         (case search r (p + length pre) s of
            None \<Rightarrow> None
          | Some (skipped, m) \<Rightarrow> Some (pre @ skipped, m))"
  using assms
proof (induction pre arbitrary: p)
  case Nil
  then show ?case by (simp split: option.splits)
next
  case (Cons c pre)
  from Cons.prems[of 0] have z: "ms r (start_at p (c # pre @ s)) = []" by simp
  have "ms r (start_at (Suc p + k) (drop k (pre @ s))) = []" if "k < length pre" for k
    using Cons.prems[of "Suc k"] that by simp
  from Cons.IH[of "Suc p", OF this] show ?case
    by (simp add: z split: option.splits)
qed

lemma search_first_lit:
  assumes "search (Seq (Lit l) r) p s = Some x"
  shows "sublist l s"
proof -
  obtain skipped m where x: "x = (skipped, m)" by (cases x)
  from search_Some[OF assms[unfolded x]]
  have "m \<in> set (ms (Seq (Lit l) r) (start_at (p + length skipped) (drop (length skipped) s)))"
    by simp
  then have "prefix l (drop (length skipped) s)"
    by (simp add: ms_Lit_Seq del: ms.simps(8) split: if_splits)
  then obtain zs where "drop (length skipped) s = l @ zs" by (auto simp: prefix_def)
  then have "s = take (length skipped) s @ l @ zs" by (metis append_take_drop_id)
  then show ?thesis unfolding sublist_def by blast
qed

lemma search_no_name: "\<not> sublist l s \<Longrightarrow> search (Seq (Lit l) r) p s = None"
  using search_first_lit[of l r p s] by (cases "search (Seq (Lit l) r) p s") auto

text \<open>An element after text without the tag name: the search skips the text.\<close>

lemma search_element:
  assumes "\<not> sublist (60 # nm) j" "60 \<notin> set nm"
    and "first_match (Seq (Lit (60 # nm)) r) (start_at (p + length j) (60 # el)) = Some m"
  shows "search (Seq (Lit (60 # nm)) r) p (j @ 60 # el) = Some (j, m)"
proof -
  have skip: "ms (Seq (Lit (60 # nm)) r) (start_at (p + k) (drop k (j @ 60 # el))) = []" if "k < length j" for k
  proof -
    have "\<not> prefix (60 # nm) (drop k (j @ 60 # el))"
      using assms(1,2) that by (intro no_prefix_across) simp_all
    then show ?thesis by (simp add: ms_Lit_Seq del: ms.simps(8))
  qed
  from search_at_front[OF assms(3)] search_skip[of j _ p "60 # el", OF skip] show ?thesis
    by simp
qed

text \<open>The \<open>exec\<close> loop over a document of elements.\<close>

lemma execAll_document:
  assumes el: "\<And>j e p others. (j, e) \<in> set es \<Longrightarrow>
      \<exists>m. search r p (j @ el e @ others) = Some (j, m) \<and> rest m = others \<and> body m = Returns (seg e)"
    and ne: "\<And>j e. (j, e) \<in> set es \<Longrightarrow> el e \<noteq> []"
    and tail: "\<And>p. search r p tail = None"
  shows "\<exists>found. execAll r p (concat (map (\<lambda>(j, e). j @ el e) es) @ tail) = Some found \<and>
           collect body found = Returns (List.map_filter seg (map snd es))"
  using el ne
proof (induction es arbitrary: p)
  case Nil
  then show ?case by (simp add: execAll.simps tail List.map_filter_simps)
next
  case (Cons je es)
  obtain j e where je: "je = (j, e)" by (cases je)
  let ?tail = "concat (map (\<lambda>(j, e). j @ el e) es) @ tail"
  have doc: "concat (map (\<lambda>(j, e). j @ el e) (je # es)) @ tail = j @ el e @ ?tail"
    by (simp add: je)
  from Cons.prems(1)[of j e p ?tail] obtain m where
    m: "search r p (j @ el e @ ?tail) = Some (j, m)" "rest m = ?tail" "body m = Returns (seg e)"
    by (auto simp: je)
  have ne: "el e \<noteq> []" using Cons.prems(2)[of j e] by (simp add: je)
  have "\<exists>found. execAll r (pos m) ?tail = Some found \<and>
          collect body found = Returns (List.map_filter seg (map snd es))"
  proof (rule Cons.IH)
    fix j e p others
    assume "(j, e) \<in> set es"
    then show "\<exists>m. search r p (j @ el e @ others) = Some (j, m) \<and> rest m = others \<and> body m = Returns (seg e)"
      using Cons.prems(1)[of j e p others] by simp
  next
    fix j e
    assume "(j, e) \<in> set es"
    then show "el e \<noteq> []" using Cons.prems(2)[of j e] by simp
  qed
  then obtain found where
    found: "execAll r (pos m) ?tail = Some found"
      "collect body found = Returns (List.map_filter seg (map snd es))"
    by blast
  have "execAll r p (concat (map (\<lambda>(j, e). j @ el e) (je # es)) @ tail) = Some (m # found)"
    unfolding doc by (subst execAll.simps) (simp add: m(1,2) ne found(1))
  moreover have "collect body (m # found) = Returns (List.map_filter seg (map snd (je # es)))"
    by (simp add: m(3) found(2) je List.map_filter_simps split: option.splits)
  ultimately show ?case by blast
qed

lemma collect_pure: "collect (\<lambda>x. Returns (f x)) xs = Returns (List.map_filter f xs)"
  by (induction xs) (simp_all add: List.map_filter_simps split: option.splits)

lemma take_run_class: "list_all (in_class c) (take (run c s) s)"
proof -
  have "take (run c s) s = takeWhile (in_class c) s"
    unfolding run_def by (rule takeWhile_eq_take[symmetric])
  then show ?thesis unfolding list_all_iff by (auto dest: set_takeWhileD)
qed

lemma search_leading:
  assumes "search (cat (tagFront name (y1 # r1) l2 @ body)) p xml = Some x" "\<not> isWhiteSpace y1"
  shows "leadingAttr name (y1 # r1) xml"
proof -
  obtain skipped m where x: "x = (skipped, m)" by (cases x)
  define k where "k = length skipped"
  define R where "R = cat (tl (tl (tl (tagFront name (y1 # r1) l2))) @ body)"
  have re: "cat (tagFront name (y1 # r1) l2 @ body) =
      Seq (Lit name) (Seq (Plus (OneOf [Space])) (Seq (Lit (y1 # r1)) R))"
    by (simp add: tagFront_def R_def)
  let ?st = "start_at (p + k) (drop k xml)"
  from search_Some[OF assms(1)[unfolded x]]
  have mem: "m \<in> set (ms (Seq (Lit name) (Seq (Plus (OneOf [Space])) (Seq (Lit (y1 # r1)) R))) ?st)"
    unfolding re k_def by (simp del: ms.simps)
  then have pn: "prefix name (drop k xml)"
    by (simp add: ms_Lit_Seq del: ms.simps(8) split: if_splits)
  then obtain s1 where s1: "drop k xml = name @ s1" by (auto simp: prefix_def)
  have n: "\<not> in_class (OneOf [Space]) y1" using assms(2) by simp
  let ?st1 = "advance (length name) ?st"
  have r1: "rest ?st1 = s1" by (simp add: s1)
  from mem pn have mem1: "m \<in> set (ms (Seq (Plus (OneOf [Space])) (Seq (Lit (y1 # r1)) R)) ?st1)"
    by (simp add: ms_Lit_Seq del: ms.simps(8))
  define n1 where "n1 = run (OneOf [Space]) s1"
  from mem1 have "m \<in> set (if 1 \<le> n1 then ms (Seq (Lit (y1 # r1)) R) (advance n1 ?st1) else [])"
    unfolding ms_Plus_Lit[OF n] r1 n1_def .
  then have run1: "1 \<le> n1" and
    mem2: "m \<in> set (ms (Seq (Lit (y1 # r1)) R) (advance n1 ?st1))"
    by (simp_all del: ms.simps split: if_splits)
  from mem2 have "prefix (y1 # r1) (rest (advance n1 ?st1))"
    unfolding ms_Lit_Seq by (simp del: ms.simps rest_advance split: if_splits)
  then have "prefix (y1 # r1) (drop n1 s1)"
    unfolding rest_advance[of n1] r1 .
  then obtain post where post: "drop n1 s1 = (y1 # r1) @ post" by (auto simp: prefix_def)
  define ws where "ws = take n1 s1"
  have "n1 \<le> length s1" unfolding n1_def by (rule run_le_length)
  with run1 have "ws \<noteq> []" by (cases s1) (auto simp: ws_def)
  moreover have "list_all (in_class (OneOf [Space])) ws"
    unfolding ws_def n1_def by (rule take_run_class)
  then have "list_all isWhiteSpace ws" by (simp add: list_all_iff)
  ultimately have b: "blankRun ws" by (simp add: blankRun_def)
  have "s1 = take n1 s1 @ drop n1 s1" by simp
  then have s1': "s1 = ws @ (y1 # r1) @ post" unfolding post ws_def .
  have "xml = take k xml @ drop k xml" by simp
  then have "xml = take k xml @ name @ ws @ (y1 # r1) @ post" unfolding s1 s1'[symmetric] .
  with b show ?thesis unfolding leadingAttr_def by blast
qed

lemma no_leading_no_match:
  assumes "\<not> leadingAttr name (y1 # r1) xml" "\<not> isWhiteSpace y1"
  shows "execLoop (cat (tagFront name (y1 # r1) l2 @ body)) xml = Returns []"
proof -
  have "search (cat (tagFront name (y1 # r1) l2 @ body)) 0 xml = None"
    using search_leading[of name y1 r1 l2 body 0 xml, OF _ assms(2)] assms(1)
    by (cases "search (cat (tagFront name (y1 # r1) l2 @ body)) 0 xml") auto
  then show ?thesis by (simp add: execLoop_def execAll.simps)
qed

section \<open>The first dialect on a written-out document\<close>

lemma srv1Re_front:
  \<open>srv1Re = cat (tagFront (str ''<text'') (str ''start="'') (str ''dur="'') @
                 [Cap 3 (Star (NoneOf [Ch 60])), Lit (str ''</text>'')])\<close>
  by (simp add: srv1Re_def tagFront_def str_def)

lemma pRe_front:
  \<open>pRe = cat (tagFront (str ''<p'') (str ''t="'') (str ''d="'') @
              [Cap 3 (LazyStar (OneOf [Space, NonSpace])), Lit (str ''</p>'')])\<close>
  by (simp add: pRe_def tagFront_def str_def)

lemma srv1Re_head: "\<exists>r. srv1Re = Seq (Lit (60 # str ''text'')) r"
  by (simp add: srv1Re_def str_def)

lemma pRe_head: "\<exists>r. pRe = Seq (Lit (60 # str ''p'')) r"
  by (simp add: pRe_def str_def)

lemma sRe_head: "\<exists>r. sRe = Seq (Lit (60 # str ''s'')) r"
  by (simp add: sRe_def str_def)

lemma openingTag_front: "name = 60 # nm \<Longrightarrow> \<exists>zs. openingTag name l1 l2 g = 60 # zs"
  by (cases g) (simp add: openingTag_def)

lemma parseFloat_undefined: "parseFloat (str ''undefined'') = NaN"
  by (simp add: ev_num str_def)

lemma parseInt_undefined: "parseInt (str ''undefined'') = NaN"
  by (simp add: ev_num str_def)

lemma srv1Re_textElement:
  assumes "textElementOk ((ws1, a, d, extra), t)"
  shows "first_match srv1Re (start_at p (textElement ((ws1, a, d, extra), t) @ tail)) =
         Some \<lparr>pos = p + length (textElement ((ws1, a, d, extra), t)), rest = tail,
               caps = (case d of None \<Rightarrow> [1 \<mapsto> a, 3 \<mapsto> t] | Some (ws2, dv) \<Rightarrow> [1 \<mapsto> a, 2 \<mapsto> dv, 3 \<mapsto> t])\<rparr>"
proof -
  let ?g = "(ws1, a, d, extra)"
  let ?open = \<open>openingTag (str ''<text'') (str ''start="'') (str ''dur="'') ?g\<close>
  from assms have ok: \<open>tagOk (str ''dur="'') ?g\<close> "60 \<notin> set t" by (simp_all add: textElementOk_def)
  define m1 where "m1 = \<lparr>pos = p + length ?open, rest = t @ str ''</text>'' @ tail,
     caps = (case d of None \<Rightarrow> [1 \<mapsto> a] | Some (ws2, dv) \<Rightarrow> [1 \<mapsto> a, 2 \<mapsto> dv])\<rparr>"
  have \<open>first_match (cat (tagFront (str ''<text'') (str ''start="'') (str ''dur="'')))
          (start_at p (?open @ t @ str ''</text>'' @ tail)) = Some m1\<close>
    unfolding m1_def using ok(1)
    using tagFront_match[of 100 "str ''ur=\"''" ws1 a d extra 115 "str ''<text''" "str ''tart=\"''" p "t @ str ''</text>'' @ tail"]
    by (simp add: str_def isWhiteSpace_def)
  moreover have "first_match (cat [Cap 3 (Star (NoneOf [Ch 60])), Lit (str ''</text>'')]) m1 =
      Some (m1\<lparr>pos := pos m1 + length t + length (str ''</text>''), rest := tail, caps := (caps m1)(3 \<mapsto> t)\<rparr>)"
    using first_match_value[of m1 t 60 "str ''/text>''" tail 3, OF _ ok(2)] by (simp add: m1_def str_def)
  ultimately have "first_match srv1Re (start_at p (?open @ t @ str ''</text>'' @ tail)) =
      Some (m1\<lparr>pos := pos m1 + length t + length (str ''</text>''), rest := tail, caps := (caps m1)(3 \<mapsto> t)\<rparr>)"
    unfolding srv1Re_front by (rule first_match_cat_append)
  then show ?thesis
    by (simp add: textElement_def m1_def split: option.splits)
qed

lemma srv1_element:
  assumes "noTextTag j" "textElementOk e"
  shows "\<exists>m. search srv1Re p (j @ textElement e @ others) = Some (j, m) \<and> rest m = others \<and>
             srv1Body m = Returns (if captioned e then Some (textSegment e) else None)"
proof -
  obtain ws1 a d extra t where e: "e = ((ws1, a, d, extra), t)" by (cases e) auto
  obtain r where r: "srv1Re = Seq (Lit (60 # str ''text'')) r" using srv1Re_head by blast
  have "\<exists>zs. textElement e @ others = 60 # zs"
    by (simp add: e textElement_def openingTag_def str_def)
  then obtain zs where zs: "textElement e @ others = 60 # zs" by blast
  define m where "m = \<lparr>pos = p + length j + length (textElement e), rest = others,
     caps = (case d of None \<Rightarrow> [1 \<mapsto> a, 3 \<mapsto> t] | Some (ws2, dv) \<Rightarrow> [1 \<mapsto> a, 2 \<mapsto> dv, 3 \<mapsto> t])\<rparr>"
  have fm: "first_match srv1Re (start_at (p + length j) (textElement e @ others)) = Some m"
    using srv1Re_textElement[OF assms(2)[unfolded e], of "p + length j" others] by (simp add: m_def e)
  have "search srv1Re p (j @ 60 # zs) = Some (j, m)"
    unfolding r using assms(1) fm[unfolded zs r]
    by (intro search_element) (simp_all add: noTextTag_def str_def)
  moreover have "srv1Body m = Returns (if captioned e then Some (textSegment e) else None)"
    by (cases d) (auto simp: srv1Body_def m_def e captioned_def textSegment_def ToString_def parseFloat_undefined)
  ultimately show ?thesis using zs by (auto simp: m_def)
qed

lemma map_filter_captioned:
  "List.map_filter (\<lambda>e. if captioned e then Some (textSegment e) else None) es =
   map textSegment (filter captioned es)"
  by (induction es) (simp_all add: List.map_filter_simps)

lemma srv1Loop_document:
  assumes "\<forall>(j, e) \<in> set es. noTextTag j \<and> textElementOk e" "noTextTag tail"
  shows "srv1Loop (textDocument es @ tail) = Returns (map textSegment (filter captioned (map snd es)))"
proof -
  obtain r where r: "srv1Re = Seq (Lit (60 # str ''text'')) r" using srv1Re_head by blast
  have tail: "search srv1Re p tail = None" for p
    unfolding r using assms(2) by (intro search_no_name) (simp add: noTextTag_def str_def)
  have ne: "textElement e \<noteq> []" for e
    by (cases e) (simp add: textElement_def str_def)
  have "\<exists>found. execAll srv1Re 0 (concat (map (\<lambda>(j, e). j @ textElement e) es) @ tail) = Some found \<and>
      collect srv1Body found =
        Returns (List.map_filter (\<lambda>e. if captioned e then Some (textSegment e) else None) (map snd es))"
    using assms(1) by (intro execAll_document srv1_element ne tail) auto
  then show ?thesis
    by (auto simp: srv1Loop_def execLoop_def textDocument_def map_filter_captioned)
qed

lemma srv1Loop_no_text: "noTextTag xml \<Longrightarrow> srv1Loop xml = Returns []"
proof -
  assume n: "noTextTag xml"
  obtain r where r: "srv1Re = Seq (Lit (60 # str ''text'')) r" using srv1Re_head by blast
  have "search srv1Re 0 xml = None"
    unfolding r using n by (intro search_no_name) (simp add: noTextTag_def str_def)
  then show ?thesis by (simp add: srv1Loop_def execLoop_def execAll.simps)
qed

lemma srv1Loop_no_start:
  \<open>\<not> leadingAttr (str ''<text'') (str ''start="'') xml \<Longrightarrow> srv1Loop xml = Returns []\<close>
  using no_leading_no_match[of "str ''<text''" 115 "str ''tart=\"''" xml]
  by (simp add: srv1Loop_def srv1Re_front str_def isWhiteSpace_def)

lemma leadingAttr_sublist: "leadingAttr name l1 xml \<Longrightarrow> sublist l1 xml"
  unfolding leadingAttr_def sublist_def by (metis append.assoc)

section \<open>The second dialect on a written-out document\<close>

lemma pRe_paragraph:
  assumes \<open>tagOk (str ''d="'') (ws1, a, d, extra)\<close> \<open>\<not> sublist (str ''</p>'') inner\<close>
  shows \<open>first_match pRe
           (start_at p (openingTag (str ''<p'') (str ''t="'') (str ''d="'') (ws1, a, d, extra) @
                        inner @ str ''</p>'' @ tail)) =
         Some \<lparr>pos = p + length (openingTag (str ''<p'') (str ''t="'') (str ''d="'') (ws1, a, d, extra)) +
                      length inner + 4,
               rest = tail,
               caps = (case d of None \<Rightarrow> [1 \<mapsto> a, 3 \<mapsto> inner]
                       | Some (ws2, dv) \<Rightarrow> [1 \<mapsto> a, 2 \<mapsto> dv, 3 \<mapsto> inner])\<rparr>\<close>
proof -
  let ?g = "(ws1, a, d, extra)"
  let ?open = \<open>openingTag (str ''<p'') (str ''t="'') (str ''d="'') ?g\<close>
  define m1 where "m1 = \<lparr>pos = p + length ?open, rest = inner @ str ''</p>'' @ tail,
     caps = (case d of None \<Rightarrow> [1 \<mapsto> a] | Some (ws2, dv) \<Rightarrow> [1 \<mapsto> a, 2 \<mapsto> dv])\<rparr>"
  have \<open>first_match (cat (tagFront (str ''<p'') (str ''t="'') (str ''d="'')))
          (start_at p (?open @ inner @ str ''</p>'' @ tail)) = Some m1\<close>
    unfolding m1_def using assms(1)
    using tagFront_match[of 100 "str ''=\"''" ws1 a d extra 116 "str ''<p''" "str ''=\"''" p "inner @ str ''</p>'' @ tail"]
    by (simp add: str_def isWhiteSpace_def)
  moreover have "first_match (cat [Cap 3 (LazyStar (OneOf [Space, NonSpace])), Lit (str ''</p>'')]) m1 =
      Some (m1\<lparr>pos := pos m1 + length inner + length (str ''</p>''), rest := tail, caps := (caps m1)(3 \<mapsto> inner)\<rparr>)"
  proof (rule first_match_lazy)
    show "rest m1 = inner @ str ''</p>'' @ tail" by (simp add: m1_def)
    show "\<not> prefix (str ''</p>'') (drop k (inner @ str ''</p>'' @ tail))" if "k < length inner" for k
      using assms(2) that by (intro no_prefix_across) (simp_all add: str_def)
    show "in_class (OneOf [Space, NonSpace]) c" for c by simp
  qed
  ultimately have "first_match pRe (start_at p (?open @ inner @ str ''</p>'' @ tail)) =
      Some (m1\<lparr>pos := pos m1 + length inner + length (str ''</p>''), rest := tail, caps := (caps m1)(3 \<mapsto> inner)\<rparr>)"
    unfolding pRe_front by (rule first_match_cat_append)
  then show ?thesis
    by (simp add: m1_def str_def split: option.splits)
qed

lemma sRe_wordElement:
  assumes "62 \<notin> set attrs" "60 \<notin> set w"
  shows "first_match sRe (start_at p (wordElement (attrs, w) @ tail)) =
         Some \<lparr>pos = p + length (wordElement (attrs, w)), rest = tail, caps = [1 \<mapsto> w]\<rparr>"
proof -
  define s0 where "s0 = start_at p (str ''<s'' @ attrs @ 62 # w @ str ''</s>'' @ tail)"
  define s1 where "s1 = \<lparr>pos = p + 2, rest = attrs @ 62 # w @ str ''</s>'' @ tail, caps = Map.empty\<rparr>"
  define s2 where "s2 = \<lparr>pos = p + 2 + length attrs, rest = 62 # w @ str ''</s>'' @ tail, caps = Map.empty\<rparr>"
  define s3 where "s3 = \<lparr>pos = p + 2 + length attrs + 1, rest = w @ str ''</s>'' @ tail, caps = Map.empty\<rparr>"
  define s4 where "s4 = \<lparr>pos = p + 2 + length attrs + 1 + length w + 4, rest = tail, caps = [1 \<mapsto> w]\<rparr>"
  have m1: "first_match (Lit (str ''<s'')) s0 = Some s1"
    using first_match_Lit[of s0 "str ''<s''"] by (simp add: s0_def s1_def start_at_def str_def)
  have m2: "first_match (Star (NoneOf [Ch 62])) s1 = Some s2"
    using first_match_until[of s1 attrs 62, OF _ assms(1)] by (simp add: s1_def s2_def)
  have m3: "first_match (Lit (str ''>'')) s2 = Some s3"
    using first_match_Lit[of s2 "str ''>''"] by (simp add: s2_def s3_def str_def)
  have m4: "first_match (cat [Cap 1 (Star (NoneOf [Ch 60])), Lit (str ''</s>'')]) s3 = Some s4"
    using first_match_value[of s3 w 60 "str ''/s>''" tail 1, OF _ assms(2)] by (simp add: s3_def s4_def str_def)
  have "first_match sRe s0 = Some s4"
    unfolding sRe_def
    by (rule first_match_cat[OF m1 first_match_cat[OF m2 first_match_cat[OF m3 m4]]])
  then show ?thesis by (simp add: s0_def s4_def wordElement_def str_def)
qed

lemma word_element:
  assumes "\<not> sublist (str ''<s'') j" "62 \<notin> set attrs" "60 \<notin> set w"
  shows "\<exists>m. search sRe p (j @ wordElement (attrs, w) @ others) = Some (j, m) \<and> rest m = others \<and>
             wordOf m = (if w \<noteq> [] then Some w else None)"
proof -
  obtain r where r: "sRe = Seq (Lit (60 # str ''s'')) r" using sRe_head by blast
  have "\<exists>zs. wordElement (attrs, w) @ others = 60 # zs"
    by (simp add: wordElement_def str_def)
  then obtain zs where zs: "wordElement (attrs, w) @ others = 60 # zs" by blast
  define m where "m = \<lparr>pos = p + length j + length (wordElement (attrs, w)), rest = others, caps = [1 \<mapsto> w]\<rparr>"
  have fm: "first_match sRe (start_at (p + length j) (wordElement (attrs, w) @ others)) = Some m"
    using sRe_wordElement[OF assms(2,3), of "p + length j" others] by (simp add: m_def)
  have "search sRe p (j @ 60 # zs) = Some (j, m)"
    unfolding r using assms(1) fm[unfolded zs r]
    by (intro search_element) (simp_all add: str_def)
  moreover have "wordOf m = (if w \<noteq> [] then Some w else None)"
    by (simp add: wordOf_def m_def)
  ultimately show ?thesis using zs by (auto simp: m_def)
qed

lemma map_filter_words:
  "List.map_filter (\<lambda>(attrs, w). if w \<noteq> [] then Some w else None) (map snd items) =
   filter (\<lambda>w. w \<noteq> []) (map (\<lambda>(j, attrs, w). w) items)"
  by (induction items) (auto simp: List.map_filter_simps)

lemma concat_filter_nonempty: "concat (filter (\<lambda>w. w \<noteq> []) ws) = concat ws"
  by (induction ws) simp_all

lemma filter_nonempty_Nil: "filter (\<lambda>w. w \<noteq> []) ws = [] \<longleftrightarrow> concat ws = []"
  by (induction ws) simp_all

lemma words_of_inner:
  assumes "\<forall>(j, attrs, w) \<in> set items. \<not> sublist (str ''<s'') j \<and> 62 \<notin> set attrs \<and> 60 \<notin> set w"
    and "\<not> sublist (str ''<s'') after"
  shows "\<exists>found. execLoop sRe (wordsInner items after) = Returns found \<and>
           List.map_filter wordOf found = filter (\<lambda>w. w \<noteq> []) (map (\<lambda>(j, attrs, w). w) items)"
proof -
  obtain r where r: "sRe = Seq (Lit (60 # str ''s'')) r" using sRe_head by blast
  have tail: "search sRe p after = None" for p
    unfolding r using assms(2) by (intro search_no_name) (simp add: str_def)
  have ne: "wordElement x \<noteq> []" for x
    by (cases x) (simp add: wordElement_def str_def)
  have el: "\<exists>m. search sRe p (j @ wordElement x @ others) = Some (j, m) \<and> rest m = others \<and>
      Returns (wordOf m) = Returns (case x of (attrs, w) \<Rightarrow> if w \<noteq> [] then Some w else None)"
    if "(j, x) \<in> set items" for j x p others
  proof -
    obtain attrs w where x: "x = (attrs, w)" by (cases x)
    from that assms(1) have "\<not> sublist (str ''<s'') j" "62 \<notin> set attrs" "60 \<notin> set w"
      by (auto simp: x)
    from word_element[OF this, of p others] show ?thesis by (auto simp: x)
  qed
  have "\<exists>found. execAll sRe 0 (concat (map (\<lambda>(j, x). j @ wordElement x) items) @ after) = Some found \<and>
      collect (\<lambda>s. Returns (wordOf s)) found =
        Returns (List.map_filter (\<lambda>(attrs, w). if w \<noteq> [] then Some w else None) (map snd items))"
    by (intro execAll_document el ne tail)
  then show ?thesis
    by (auto simp: execLoop_def wordsInner_def collect_pure map_filter_words)
qed

lemma srv3Body_inner:
  assumes "caps m 3 = Some (wordsInner items after)"
    and "\<forall>(j, attrs, w) \<in> set items. \<not> sublist (str ''<s'') j \<and> 62 \<notin> set attrs \<and> 60 \<notin> set w"
    and "\<not> sublist (str ''<s'') after"
  shows "srv3Body m =
     Returns (if paragraphText items after \<noteq> [] then
                Some \<lparr>seg_text = paragraphText items after,
                      start = num_div (or0 (parseInt (ToString (caps m 1)))) 1000,
                      duration = num_div (or0 (parseInt (ToString (caps m 2)))) 1000\<rparr>
              else None)"
proof -
  let ?ws = "map (\<lambda>(j, attrs, w). w) items"
  from words_of_inner[OF assms(2,3)] obtain found where
    f: "execLoop sRe (wordsInner items after) = Returns found"
      "List.map_filter wordOf found = filter (\<lambda>w. w \<noteq> []) ?ws"
    by blast
  have t: "paragraphText items after =
      (if filter (\<lambda>w. w \<noteq> []) ?ws \<noteq> [] then concat (filter (\<lambda>w. w \<noteq> []) ?ws)
       else trim (stripTags (wordsInner items after)))"
    by (simp add: paragraphText_def filter_nonempty_Nil concat_filter_nonempty del: concat_eq_Nil_conv)
  show ?thesis
    unfolding t by (simp add: srv3Body_def assms(1) f Let_def)
qed

lemma p_element:
  assumes "noParagraphTag j" "paragraphOk e"
  shows "\<exists>m. search pRe p (j @ paragraphElement e @ others) = Some (j, m) \<and> rest m = others \<and>
             srv3Body m = Returns (paragraphSegment e)"
proof -
  obtain ws1 a d extra items after where e: "e = ((ws1, a, d, extra), items, after)" by (cases e) auto
  let ?inner = "wordsInner items after"
  let ?open = \<open>openingTag (str ''<p'') (str ''t="'') (str ''d="'') (ws1, a, d, extra)\<close>
  from assms(2) have ok: \<open>tagOk (str ''d="'') (ws1, a, d, extra)\<close>
    "\<forall>(j, attrs, w) \<in> set items. \<not> sublist (str ''<s'') j \<and> 62 \<notin> set attrs \<and> 60 \<notin> set w"
    "\<not> sublist (str ''<s'') after" "\<not> sublist (str ''</p>'') ?inner"
    by (simp_all add: paragraphOk_def e)
  obtain r where r: "pRe = Seq (Lit (60 # str ''p'')) r" using pRe_head by blast
  have "\<exists>zs. paragraphElement e @ others = 60 # zs"
    by (simp add: e paragraphElement_def openingTag_def str_def)
  then obtain zs where zs: "paragraphElement e @ others = 60 # zs" by blast
  define m where "m = \<lparr>pos = p + length j + length ?open + length ?inner + 4, rest = others,
     caps = (case d of None \<Rightarrow> [1 \<mapsto> a, 3 \<mapsto> ?inner] | Some (ws2, dv) \<Rightarrow> [1 \<mapsto> a, 2 \<mapsto> dv, 3 \<mapsto> ?inner])\<rparr>"
  have fm: "first_match pRe (start_at (p + length j) (paragraphElement e @ others)) = Some m"
    using pRe_paragraph[OF ok(1,4), of "p + length j" others] by (simp add: m_def e paragraphElement_def)
  have s: "search pRe p (j @ 60 # zs) = Some (j, m)"
    unfolding r using assms(1) fm[unfolded zs r]
    by (intro search_element) (simp_all add: noParagraphTag_def str_def)
  have c3: "caps m 3 = Some ?inner" by (cases d) (auto simp: m_def)
  have "srv3Body m = Returns (paragraphSegment e)"
    unfolding srv3Body_inner[OF c3 ok(2,3)]
    by (cases d) (auto simp: m_def e paragraphSegment_def msToSeconds_def ToString_def parseInt_undefined round_double_0)
  with s show ?thesis using zs by (auto simp: m_def)
qed

lemma srv3Loop_document:
  assumes "\<forall>(j, e) \<in> set ps. noParagraphTag j \<and> paragraphOk e" "noParagraphTag tail"
  shows "srv3Loop (paragraphDocument ps @ tail) = Returns (List.map_filter paragraphSegment (map snd ps))"
proof -
  obtain r where r: "pRe = Seq (Lit (60 # str ''p'')) r" using pRe_head by blast
  have tail: "search pRe p tail = None" for p
    unfolding r using assms(2) by (intro search_no_name) (simp add: noParagraphTag_def str_def)
  have ne: "paragraphElement e \<noteq> []" for e
    by (cases e) (simp add: paragraphElement_def str_def)
  have "\<exists>found. execAll pRe 0 (concat (map (\<lambda>(j, e). j @ paragraphElement e) ps) @ tail) = Some found \<and>
      collect srv3Body found = Returns (List.map_filter paragraphSegment (map snd ps))"
    using assms(1) by (intro execAll_document p_element ne tail) auto
  then show ?thesis
    by (auto simp: srv3Loop_def execLoop_def paragraphDocument_def)
qed

section \<open>The tests on a line of the subtitle text\<close>

lemma search_None_iff:
  "search r p s = None \<longleftrightarrow> (\<forall>k \<le> length s. ms r (start_at (p + k) (drop k s)) = [])"
proof (induction s arbitrary: p)
  case Nil
  then show ?case by (simp split: list.splits)
next
  case (Cons c cs)
  have split: "(\<forall>k \<le> length (c # cs). ms r (start_at (p + k) (drop k (c # cs))) = []) \<longleftrightarrow>
        ms r (start_at p (c # cs)) = [] \<and>
        (\<forall>k \<le> length cs. ms r (start_at (Suc p + k) (drop k cs)) = [])"
  proof (intro iffI conjI allI impI)
    assume a: "\<forall>k \<le> length (c # cs). ms r (start_at (p + k) (drop k (c # cs))) = []"
    from a[rule_format, of 0] show "ms r (start_at p (c # cs)) = []" by simp
    fix k assume "k \<le> length cs"
    with a[rule_format, of "Suc k"] show "ms r (start_at (Suc p + k) (drop k cs)) = []" by simp
  next
    fix k
    assume a: "ms r (start_at p (c # cs)) = [] \<and>
        (\<forall>k \<le> length cs. ms r (start_at (Suc p + k) (drop k cs)) = [])"
      and k: "k \<le> length (c # cs)"
    show "ms r (start_at (p + k) (drop k (c # cs))) = []"
    proof (cases k)
      case 0
      with a show ?thesis by simp
    next
      case (Suc j)
      with a k show ?thesis by simp
    qed
  qed
  show ?case
  proof (cases "ms r (start_at p (c # cs))")
    case Nil
    have "search r p (c # cs) = None \<longleftrightarrow> search r (Suc p) cs = None"
      by (simp add: Nil split: option.splits)
    then show ?thesis unfolding split Cons.IH[of "Suc p"] using Nil by simp
  next
    case (Cons m others)
    then show ?thesis unfolding split by simp
  qed
qed

lemma test_Lit: "test (Lit l) s \<longleftrightarrow> sublist l s"
proof
  assume "test (Lit l) s"
  then have "\<not> (\<forall>k \<le> length s. ms (Lit l) (start_at (0 + k) (drop k s)) = [])"
    unfolding test_def search_None_iff .
  then obtain k where "ms (Lit l) (start_at (0 + k) (drop k s)) \<noteq> []" by blast
  then have "prefix l (drop k s)" by (simp split: if_splits)
  then obtain zs where "drop k s = l @ zs" by (auto simp: prefix_def)
  then have "s = take k s @ l @ zs" by (metis append_take_drop_id)
  then show "sublist l s" unfolding sublist_def by blast
next
  assume "sublist l s"
  then obtain ps ss where s: "s = ps @ l @ ss" unfolding sublist_def by blast
  then have "prefix l (drop (length ps) s)" by simp
  then have "ms (Lit l) (start_at (0 + length ps) (drop (length ps) s)) \<noteq> []" by simp
  moreover have "length ps \<le> length s" using s by simp
  ultimately have "\<not> (\<forall>k \<le> length s. ms (Lit l) (start_at (0 + k) (drop k s)) = [])"
    by blast
  then show "test (Lit l) s" unfolding test_def search_None_iff .
qed

lemma whole_class_ms:
  "ms (cat [Bol, Plus c, Eol]) st \<noteq> [] \<longleftrightarrow>
     pos st = 0 \<and> rest st \<noteq> [] \<and> list_all (in_class c) (rest st)"
proof -
  have "ms (cat [Bol, Plus c, Eol]) st \<noteq> [] \<longleftrightarrow>
        pos st = 0 \<and> (\<exists>st1 \<in> set (ms (Plus c) st). rest st1 = [])"
    by (auto simp del: ms.simps(4))
  also have "\<dots> \<longleftrightarrow> pos st = 0 \<and> (\<exists>k. 1 \<le> k \<and> k \<le> run c (rest st) \<and> drop k (rest st) = [])"
    unfolding set_ms_Plus by auto
  also have "\<dots> \<longleftrightarrow> pos st = 0 \<and> rest st \<noteq> [] \<and> list_all (in_class c) (rest st)"
  proof (intro iffI conjI)
    assume a: "pos st = 0 \<and> (\<exists>k. 1 \<le> k \<and> k \<le> run c (rest st) \<and> drop k (rest st) = [])"
    then show "pos st = 0" by simp
    from a obtain k where k: "1 \<le> k" "k \<le> run c (rest st)" "drop k (rest st) = []" by blast
    from k(1,2) run_le_length[of c "rest st"] show "rest st \<noteq> []" by auto
    from k(3) have "take k (rest st) = rest st" by simp
    with run_take_class[OF k(2)] show "list_all (in_class c) (rest st)" by simp
  next
    assume a: "pos st = 0 \<and> rest st \<noteq> [] \<and> list_all (in_class c) (rest st)"
    then show "pos st = 0" by simp
    from a have "run c (rest st) = length (rest st)" by (simp add: run_all)
    with a show "\<exists>k. 1 \<le> k \<and> k \<le> run c (rest st) \<and> drop k (rest st) = []"
      by (intro exI[of _ "length (rest st)"]) (cases "rest st", auto)
  qed
  finally show ?thesis .
qed

lemma search_Bol_front:
  "search (cat (Bol # rs)) 0 s = None \<longleftrightarrow> ms (cat (Bol # rs)) (start_at 0 s) = []"
proof (cases s)
  case Nil
  then show ?thesis by (simp del: cat_Cons ms.simps split: list.splits)
next
  case (Cons x xs)
  have later: "search (cat (Bol # rs)) (Suc 0) xs = None" by (rule search_Bol_later)
  show ?thesis unfolding Cons search.simps later by (simp del: cat_Cons ms.simps split: list.splits)
qed

lemma test_whole_class:
  "test (cat [Bol, Plus c, Eol]) s \<longleftrightarrow> s \<noteq> [] \<and> list_all (in_class c) s"
  unfolding test_def search_Bol_front using whole_class_ms[of c "start_at 0 s"]
  by (simp del: cat_Cons ms.simps)

lemma vttSkipped_structural: "vttSkipped t = vttStructural t"
proof -
  have "in_class (OneOf [Digit]) = isDigit" by (rule ext) simp
  then show ?thesis
    unfolding vttSkipped_def vttStructural_def cueIndexRe_def arrowRe_def startsWith_def
      test_Lit test_whole_class by simp
qed

lemma remdups_drop_repeat: "c \<in> set ys \<Longrightarrow> remdups (xs @ c # ys) = remdups (xs @ ys)"
  by (induction xs) auto

lemma firstOccurrences_repeat:
  "c \<in> set A \<Longrightarrow> firstOccurrences (A @ c # C) = firstOccurrences (A @ C)"
  by (simp add: firstOccurrences_def remdups_drop_repeat)

lemma firstOccurrences_distinct: "distinct xs \<Longrightarrow> firstOccurrences xs = xs"
  by (simp add: firstOccurrences_def distinct_remdups_id)

lemma vttLoop_texts:
  "distinct (map seg_text acc) \<Longrightarrow>
   map seg_text (vttLoop lines acc) =
     firstOccurrences (map seg_text acc @
       filter (\<lambda>c. c \<noteq> [])
         (map (\<lambda>line. trim (stripTags (trim line)))
            (filter (\<lambda>line. \<not> vttStructural (trim line)) lines)))"
proof (induction lines arbitrary: acc)
  case Nil
  then show ?case by (simp add: firstOccurrences_distinct)
next
  case (Cons line lines)
  let ?c = "trim (stripTags (trim line))"
  let ?rest = "filter (\<lambda>c. c \<noteq> [])
         (map (\<lambda>line. trim (stripTags (trim line)))
            (filter (\<lambda>line. \<not> vttStructural (trim line)) lines))"
  show ?case
  proof (cases "vttStructural (trim line) \<or> ?c = []")
    case True
    then have "vttLoop (line # lines) acc = vttLoop lines acc"
      by (auto simp: vttSkipped_structural Let_def)
    with True Cons.IH[OF Cons.prems] show ?thesis by auto
  next
    case False
    then have ns: "\<not> vttStructural (trim line)" and ne: "?c \<noteq> []" by auto
    show ?thesis
    proof (cases "?c \<in> set (map seg_text acc)")
      case True
      then have "list_ex (\<lambda>s. seg_text s = ?c) acc" by (auto simp: list_ex_iff)
      then have "vttLoop (line # lines) acc = vttLoop lines acc"
        using ns by (simp add: vttSkipped_structural Let_def)
      then show ?thesis
        using Cons.IH[OF Cons.prems] ns ne firstOccurrences_repeat[OF True, of ?rest] by simp
    next
      case False
      then have "\<not> list_ex (\<lambda>s. seg_text s = ?c) acc" by (force simp: list_ex_iff)
      then have step: "vttLoop (line # lines) acc =
          vttLoop lines (acc @ [\<lparr>seg_text = ?c, start = Fin 0, duration = Fin 0\<rparr>])"
        using ns ne by (simp add: vttSkipped_structural Let_def)
      have d: "distinct (map seg_text (acc @ [\<lparr>seg_text = ?c, start = Fin 0, duration = Fin 0\<rparr>]))"
        using Cons.prems False by simp
      show ?thesis unfolding step using Cons.IH[OF d] ns ne by simp
    qed
  qed
qed

lemma vttLoop_step:
  "vttLoop (line # lines) acc = vttLoop lines acc \<or>
   vttLoop (line # lines) acc =
     vttLoop lines (acc @ [\<lparr>seg_text = trim (stripTags (trim line)), start = Fin 0, duration = Fin 0\<rparr>])"
  by (simp add: Let_def)

lemma vttLoop_timing:
  "\<forall>s \<in> set acc. start s = Fin 0 \<and> duration s = Fin 0 \<Longrightarrow>
   \<forall>s \<in> set (vttLoop lines acc). start s = Fin 0 \<and> duration s = Fin 0"
proof (induction lines arbitrary: acc)
  case Nil
  then show ?case by simp
next
  case (Cons line lines)
  let ?new = "\<lparr>seg_text = trim (stripTags (trim line)), start = Fin 0, duration = Fin 0\<rparr>"
  have "\<forall>s \<in> set (acc @ [?new]). start s = Fin 0 \<and> duration s = Fin 0"
    using Cons.prems by simp
  from Cons.IH[OF this] Cons.IH[OF Cons.prems] vttLoop_step[of line lines acc]
  show ?case by metis
qed

lemma zero_timed_segments:
  "\<forall>s \<in> set segs. start s = Fin 0 \<and> duration s = Fin 0 \<Longrightarrow>
   segs = map (\<lambda>t. \<lparr>seg_text = t, start = Fin 0, duration = Fin 0\<rparr>) (map seg_text segs)"
proof (induction segs)
  case Nil
  then show ?case by simp
next
  case (Cons s segs)
  then have "start s = Fin 0" "duration s = Fin 0" by simp_all
  then have "s = \<lparr>seg_text = seg_text s, start = Fin 0, duration = Fin 0\<rparr>" by (cases s) simp
  moreover have "segs = map (\<lambda>t. \<lparr>seg_text = t, start = Fin 0, duration = Fin 0\<rparr>) (map seg_text segs)"
    using Cons by simp
  ultimately show ?case by (metis list.simps(9))
qed

lemma vttSegments_eq:
  "vttSegments payload =
     map (\<lambda>t. \<lparr>seg_text = t, start = Fin 0, duration = Fin 0\<rparr>)
       (firstOccurrences (vttCandidates payload))"
proof -
  have t: "map seg_text (vttSegments payload) = firstOccurrences (vttCandidates payload)"
    unfolding vttSegments_def vttCandidates_def using vttLoop_texts[of "[]"] by simp
  have "\<forall>s \<in> set (vttSegments payload). start s = Fin 0 \<and> duration s = Fin 0"
    unfolding vttSegments_def using vttLoop_timing[of "[]"] by simp
  from zero_timed_segments[OF this] show ?thesis unfolding t .
qed

lemmas ev_vtt = vttSegments_def vttSkipped_def cueIndexRe_def arrowRe_def
  startsWith_def test_def Let_def

lemma parseSubtitleResponse_vtt:
  assumes "trim payload \<noteq> []" "parseTranscriptXml payload = Returns []"
    "str_includes payload (str ''WEBVTT'')" "vttSegments payload \<noteq> []"
  shows "parseSubtitleResponse payload = Returns (vttSegments payload)"
proof -
  from assms(1) have "payload \<noteq> []" by (auto simp: trim_def)
  with assms show ?thesis by (simp add: parseSubtitleResponse_def Let_def)
qed

section \<open>Timestamps and entities\<close>


















section \<open>getVideoTranscript: the order of the strategies and the aggregate error\<close>

text \<open>
  Claim C1. \<open>getVideoTranscript\<close> runs the strategies in the order Android, page,
  yt-dlp. Whatever the three strategies are, when each records its run (tags 1, 2
  and 3): if the first returns segments, only it has run and its segments are
  formatted; if it throws and the second returns, exactly the first two have run, in
  this order; if both throw, the third runs; and if all three throw, each has run
  once, in order, and one error is thrown whose message lists the three reasons in
  the order of the strategies.
\<close>

theorem getVideoTranscript_fallback:
  "(\<forall>segs w1. fA w0 = (Returns segs, w1) \<longrightarrow>
      getVideoTranscript (traced 1 fA) (traced 2 fB) (traced 3 fC) titleText options (w0, []) =
        (Returns \<lparr>transcript = formatSegments segs options, title = titleText\<rparr>, (w1, [1]))) \<and>
   (\<forall>e1 w1 segs w2. fA w0 = (Throws e1, w1) \<and> fB w1 = (Returns segs, w2) \<longrightarrow>
      getVideoTranscript (traced 1 fA) (traced 2 fB) (traced 3 fC) titleText options (w0, []) =
        (Returns \<lparr>transcript = formatSegments segs options, title = titleText\<rparr>, (w2, [1, 2]))) \<and>
   (\<forall>e1 w1 e2 w2 segs w3.
      fA w0 = (Throws e1, w1) \<and> fB w1 = (Throws e2, w2) \<and> fC w2 = (Returns segs, w3) \<longrightarrow>
      getVideoTranscript (traced 1 fA) (traced 2 fB) (traced 3 fC) titleText options (w0, []) =
        (Returns \<lparr>transcript = formatSegments segs options, title = titleText\<rparr>, (w3, [1, 2, 3]))) \<and>
   (\<forall>e1 w1 e2 w2 e3 w3.
      fA w0 = (Throws e1, w1) \<and> fB w1 = (Throws e2, w2) \<and> fC w2 = (Throws e3, w3) \<longrightarrow>
      getVideoTranscript (traced 1 fA) (traced 2 fB) (traced 3 fC) titleText options (w0, []) =
        (Throws (Error (str ''No transcript available. All methods failed:'' @ [10] @
                        str ''- ANDROID API: '' @ messageOf e1 @ [10] @
                        str ''- Page scraping: '' @ messageOf e2 @ [10] @
                        str ''- yt-dlp: '' @ messageOf e3)),
         (w3, [1, 2, 3])))"
  by (simp add: getVideoTranscript_def traced_def allFailed_def str_def)

text \<open>The theorem at strategies with fixed outcomes: the second succeeds, and all three
  fail.\<close>

theorem getVideoTranscript_fallback_witness:
  "getVideoTranscript
     (traced 1 (always (Throws (Error (str ''a'')))))
     (traced 2 (always (Returns [\<lparr>seg_text = str ''hi'', start = Fin 0, duration = Fin 1\<rparr>])))
     (traced 3 (always (Throws (Error (str ''c'')))))
     (str ''T'') \<lparr>timestamps = None\<rparr> ((), []) =
     (Returns \<lparr>transcript =
         formatSegments [\<lparr>seg_text = str ''hi'', start = Fin 0, duration = Fin 1\<rparr>]
           \<lparr>timestamps = None\<rparr>,
       title = str ''T''\<rparr>, ((), [1, 2])) \<and>
   getVideoTranscript
     (traced 1 (always (Throws (Error (str ''a'')))))
     (traced 2 (always (Throws (Value (str ''b'')))))
     (traced 3 (always (Throws (Error (str ''c'')))))
     (str ''T'') \<lparr>timestamps = None\<rparr> ((), []) =
     (Throws (Error (str ''No transcript available. All methods failed:'' @ [10] @
                     str ''- ANDROID API: a'' @ [10] @
                     str ''- Page scraping: b'' @ [10] @
                     str ''- yt-dlp: c'')),
      ((), [1, 2, 3]))"
proof -
  have a: "always (Throws (Error (str ''a''))) () = (Throws (Error (str ''a'')), ())"
    and b: "always (Throws (Value (str ''b''))) () = (Throws (Value (str ''b'')), ())"
    and c: "always (Throws (Error (str ''c''))) () = (Throws (Error (str ''c'')), ())"
    and r: "always (Returns [\<lparr>seg_text = str ''hi'', start = Fin 0, duration = Fin 1\<rparr>]) () =
            (Returns [\<lparr>seg_text = str ''hi'', start = Fin 0, duration = Fin 1\<rparr>], ())"
    by (simp_all add: always_def)
  have m: "messageOf (Error (str ''a'')) = str ''a''" "messageOf (Value (str ''b'')) = str ''b''"
    "messageOf (Error (str ''c'')) = str ''c''"
    by (simp_all add: messageOf_def)
  from getVideoTranscript_fallback[of
      "always (Throws (Error (str ''a'')))" "()"
      "always (Returns [\<lparr>seg_text = str ''hi'', start = Fin 0, duration = Fin 1\<rparr>])"
      "always (Throws (Error (str ''c'')))" "str ''T''" "\<lparr>timestamps = None\<rparr>"] a r
  have first: "getVideoTranscript
     (traced 1 (always (Throws (Error (str ''a'')))))
     (traced 2 (always (Returns [\<lparr>seg_text = str ''hi'', start = Fin 0, duration = Fin 1\<rparr>])))
     (traced 3 (always (Throws (Error (str ''c'')))))
     (str ''T'') \<lparr>timestamps = None\<rparr> ((), []) =
     (Returns \<lparr>transcript =
         formatSegments [\<lparr>seg_text = str ''hi'', start = Fin 0, duration = Fin 1\<rparr>]
           \<lparr>timestamps = None\<rparr>,
       title = str ''T''\<rparr>, ((), [1, 2]))"
    by blast
  from getVideoTranscript_fallback[of
      "always (Throws (Error (str ''a'')))" "()"
      "always (Throws (Value (str ''b'')))"
      "always (Throws (Error (str ''c'')))" "str ''T''" "\<lparr>timestamps = None\<rparr>"] a b c
  have "getVideoTranscript
     (traced 1 (always (Throws (Error (str ''a'')))))
     (traced 2 (always (Throws (Value (str ''b'')))))
     (traced 3 (always (Throws (Error (str ''c'')))))
     (str ''T'') \<lparr>timestamps = None\<rparr> ((), []) =
     (Throws (Error (str ''No transcript available. All methods failed:'' @ [10] @
                        str ''- ANDROID API: '' @ messageOf (Error (str ''a'')) @ [10] @
                        str ''- Page scraping: '' @ messageOf (Value (str ''b'')) @ [10] @
                        str ''- yt-dlp: '' @ messageOf (Error (str ''c'')))),
         ((), [1, 2, 3]))"
    by blast
  then have second: "getVideoTranscript
     (traced 1 (always (Throws (Error (str ''a'')))))
     (traced 2 (always (Throws (Value (str ''b'')))))
     (traced 3 (always (Throws (Error (str ''c'')))))
     (str ''T'') \<lparr>timestamps = None\<rparr> ((), []) =
     (Throws (Error (str ''No transcript available. All methods failed:'' @ [10] @
                     str ''- ANDROID API: a'' @ [10] @
                     str ''- Page scraping: b'' @ [10] @
                     str ''- yt-dlp: c'')),
      ((), [1, 2, 3]))"
    unfolding m by (simp add: str_def)
  from first second show ?thesis by (rule conjI)
qed

section \<open>pickTrackUrl: the first English track, else the first track\<close>

text \<open>
  Claim C6. For every non-empty list of caption tracks, \<open>pickTrackUrl\<close> returns the URL
  of the first track (in the order of the list) whose language code is \<open>en\<close> or
  starts with \<open>en\<close>; when no track has such a code, it returns the URL of the first
  track of the list. Among tracks with the codes \<open>fr\<close>, \<open>en-US\<close>, \<open>de\<close> it selects the
  \<open>en-US\<close> track, and among \<open>fr\<close>, \<open>de\<close> the \<open>fr\<close> track. The selection is a function of
  the list.
\<close>

theorem pickTrackUrl_prefers_english:
  "tracks \<noteq> [] \<Longrightarrow>
   (\<exists>i < length tracks.
      pickTrackUrl tracks = Returns (baseUrl (tracks ! i)) \<and>
      (if \<exists>t \<in> set tracks. english t
       then english (tracks ! i) \<and> (\<forall>j < i. \<not> english (tracks ! j))
       else i = 0)) \<and>
   pickTrackUrl
     [\<lparr>baseUrl = u1, languageCode = str ''fr''\<rparr>,
      \<lparr>baseUrl = u2, languageCode = str ''en-US''\<rparr>,
      \<lparr>baseUrl = u3, languageCode = str ''de''\<rparr>] = Returns u2 \<and>
   pickTrackUrl
     [\<lparr>baseUrl = u1, languageCode = str ''fr''\<rparr>,
      \<lparr>baseUrl = u3, languageCode = str ''de''\<rparr>] = Returns u1"
proof (intro conjI)
  assume ne: "tracks \<noteq> []"
  let ?P = "\<lambda>t. languageCode t = str ''en'' \<or> startsWith (languageCode t) (str ''en'')"
  have P: "?P = english" by (simp add: english_def startsWith_def fun_eq_iff)
  show "\<exists>i < length tracks.
      pickTrackUrl tracks = Returns (baseUrl (tracks ! i)) \<and>
      (if \<exists>t \<in> set tracks. english t
       then english (tracks ! i) \<and> (\<forall>j < i. \<not> english (tracks ! j))
       else i = 0)"
  proof (cases "find ?P tracks")
    case None
    then have no: "\<not> (\<exists>t \<in> set tracks. english t)"
      unfolding P by (simp add: find_None_iff)
    from None ne have "pickTrackUrl tracks = Returns (baseUrl (tracks ! 0))"
      by (cases tracks) (simp_all add: pickTrackUrl_def)
    with no ne show ?thesis by (intro exI[of _ 0]) simp
  next
    case (Some en)
    then obtain i where i: "i < length tracks" "english (tracks ! i)" "en = tracks ! i"
      "\<forall>j < i. \<not> english (tracks ! j)"
      unfolding P find_Some_iff by blast
    from Some have "pickTrackUrl tracks = Returns (baseUrl en)"
      by (simp add: pickTrackUrl_def)
    moreover have "\<exists>t \<in> set tracks. english t" using i(1,2) nth_mem by blast
    ultimately show ?thesis using i by (intro exI[of _ i]) simp
  qed
qed (simp_all add: pickTrackUrl_def startsWith_def str_def)

text \<open>The theorem at the tracks \<open>de\<close>, \<open>en\<close>, \<open>en-GB\<close>.\<close>

theorem pickTrackUrl_prefers_english_witness:
  "[\<lparr>baseUrl = str ''a'', languageCode = str ''de''\<rparr>,
    \<lparr>baseUrl = str ''b'', languageCode = str ''en''\<rparr>,
    \<lparr>baseUrl = str ''c'', languageCode = str ''en-GB''\<rparr>] \<noteq> [] \<and>
   (\<exists>i. pickTrackUrl
          [\<lparr>baseUrl = str ''a'', languageCode = str ''de''\<rparr>,
           \<lparr>baseUrl = str ''b'', languageCode = str ''en''\<rparr>,
           \<lparr>baseUrl = str ''c'', languageCode = str ''en-GB''\<rparr>] =
        Returns (baseUrl
          ([\<lparr>baseUrl = str ''a'', languageCode = str ''de''\<rparr>,
            \<lparr>baseUrl = str ''b'', languageCode = str ''en''\<rparr>,
            \<lparr>baseUrl = str ''c'', languageCode = str ''en-GB''\<rparr>] ! i)) \<and>
        english
          ([\<lparr>baseUrl = str ''a'', languageCode = str ''de''\<rparr>,
            \<lparr>baseUrl = str ''b'', languageCode = str ''en''\<rparr>,
            \<lparr>baseUrl = str ''c'', languageCode = str ''en-GB''\<rparr>] ! i)) \<and>
   pickTrackUrl
     [\<lparr>baseUrl = str ''a'', languageCode = str ''de''\<rparr>,
      \<lparr>baseUrl = str ''b'', languageCode = str ''en''\<rparr>,
      \<lparr>baseUrl = str ''c'', languageCode = str ''en-GB''\<rparr>] = Returns (str ''b'')"
proof -
  let ?ts = "[\<lparr>baseUrl = str ''a'', languageCode = str ''de''\<rparr>,
      \<lparr>baseUrl = str ''b'', languageCode = str ''en''\<rparr>,
      \<lparr>baseUrl = str ''c'', languageCode = str ''en-GB''\<rparr>]"
  have ne: "?ts \<noteq> []" by simp
  have en: "\<exists>t \<in> set ?ts. english t" by (simp add: english_def str_def)
  have "\<exists>i < length ?ts.
      pickTrackUrl ?ts = Returns (baseUrl (?ts ! i)) \<and>
      (if \<exists>t \<in> set ?ts. english t
       then english (?ts ! i) \<and> (\<forall>j < i. \<not> english (?ts ! j))
       else i = 0)"
    using pickTrackUrl_prefers_english[OF ne, of "[]" "[]" "[]"] by (rule conjunct1)
  then have "\<exists>i. pickTrackUrl ?ts = Returns (baseUrl (?ts ! i)) \<and> english (?ts ! i)"
    unfolding if_P[OF en] by blast
  moreover have "pickTrackUrl ?ts = Returns (str ''b'')"
    by (simp add: pickTrackUrl_def startsWith_def str_def)
  ultimately show ?thesis using ne by blast
qed

section \<open>parseTranscriptXml is total\<close>

text \<open>
  Claim C9. For every input string \<open>parseTranscriptXml\<close> ends, does not throw and
  returns a list of segments. The list is empty for the empty string, for every
  text without the character \<open><\<close> (code unit 60), for an unclosed tag, and for tags of
  other names.
\<close>

theorem parseTranscriptXml_total:
  \<open>(\<exists>segs. parseTranscriptXml xml = Returns segs) \<and>
   parseTranscriptXml [] = Returns [] \<and>
   (60 \<notin> set xml \<longrightarrow> parseTranscriptXml xml = Returns []) \<and>
   parseTranscriptXml (str ''<text>unclosed'') = Returns [] \<and>
   parseTranscriptXml (str ''<text start="0">unclosed <p t="1"><s>x'') = Returns [] \<and>
   parseTranscriptXml (str ''<root><item>data</item></root>'') = Returns []\<close>
proof (intro conjI impI)
  show "\<exists>segs. parseTranscriptXml xml = Returns segs" by (rule parseTranscriptXml_Returns)
  show "parseTranscriptXml [] = Returns []" by (rule parseTranscriptXml_no_tag) simp
  show "parseTranscriptXml xml = Returns []" if "60 \<notin> set xml"
    using that by (rule parseTranscriptXml_no_tag)
  show "parseTranscriptXml (str ''<text>unclosed'') = Returns []"
    by (simp add: ev_xml ev_re ev_num)
  show \<open>parseTranscriptXml (str ''<text start="0">unclosed <p t="1"><s>x'') = Returns []\<close>
    by (simp add: ev_xml ev_re ev_num)
  show "parseTranscriptXml (str ''<root><item>data</item></root>'') = Returns []"
    by (simp add: ev_xml ev_re ev_num)
qed

text \<open>The theorem at a text that is not XML.\<close>

theorem parseTranscriptXml_total_witness:
  "60 \<notin> set (str ''just some text'') \<and>
   parseTranscriptXml (str ''just some text'') = Returns []"
proof -
  have "60 \<notin> set (str ''just some text'')" by (simp add: str_def)
  with parseTranscriptXml_total[of "str ''just some text''"] show ?thesis by blast
qed

section \<open>extractVideoId applied to its own result\<close>

text \<open>
  Claim C4 says that \<open>extractVideoId\<close> is idempotent: a returned identifier \<open>r\<close> gives
  \<open>extractVideoId(r) = r\<close>. The four URL patterns capture a run of identifier
  characters of any length, while the bare pattern accepts exactly 11, so the claim
  fails for a URL with a shorter or longer run: \<open>youtu.be/abc\<close> gives \<open>abc\<close>, and \<open>abc\<close>
  gives \<open>null\<close>.
\<close>

lemmas ev_id = extractVideoId_def patterns_def urlFront_def idClass_def match_def
  cat_def str_def start_at_def advance_def run_def

theorem extractVideoId_not_idempotent:
  "extractVideoId (str ''youtu.be/abc'') = Some (str ''abc'') \<and>
   extractVideoId (str ''abc'') = None"
  by (simp add: ev_id)

text \<open>
  Claim C4, amended. \<open>extractVideoId\<close> is a total function of its input string (it has
  no throwing step). When it returns \<open>r\<close>, then \<open>r\<close> is not empty and consists of
  identifier characters only, and \<open>extractVideoId(r)\<close> is \<open>r\<close> when \<open>r\<close> has 11
  characters and \<open>null\<close> otherwise.
\<close>

theorem extractVideoId_fixpoint:
  "extractVideoId s = Some r \<Longrightarrow>
   r \<noteq> [] \<and> list_all isIdChar r \<and>
   extractVideoId r = (if length r = 11 then Some r else None)"
  using extractVideoId_chars[of s r] extractVideoId_idchars[of r] by simp

text \<open>The theorem at a watch URL.\<close>

theorem extractVideoId_fixpoint_witness:
  "extractVideoId (str ''https://www.youtube.com/watch?v=dQw4w9WgXcQ'') = Some (str ''dQw4w9WgXcQ'') \<and>
   list_all isIdChar (str ''dQw4w9WgXcQ'') \<and>
   extractVideoId (str ''dQw4w9WgXcQ'') = Some (str ''dQw4w9WgXcQ'')"
proof -
  have e: "extractVideoId (str ''https://www.youtube.com/watch?v=dQw4w9WgXcQ'') = Some (str ''dQw4w9WgXcQ'')"
    by (simp add: ev_id)
  have l: "length (str ''dQw4w9WgXcQ'') = 11" by (simp add: str_def)
  from extractVideoId_fixpoint[OF e] e l show ?thesis by simp
qed

section \<open>extractVideoId on the supported shapes\<close>

text \<open>
  Claim C5. For every identifier \<open>v\<close> of 11 identifier characters, \<open>extractVideoId\<close>
  returns \<open>v\<close> for each of the four URL forms (short link, watch URL, embed URL,
  short-form video) that ends with \<open>v\<close>, with or without the scheme and with or
  without \<open>www.\<close>, and for \<open>v\<close> itself. For every string whose length is not 11 and
  that has no URL shape it returns \<open>null\<close>.
\<close>

theorem extractVideoId_shapes:
  "(length v = 11 \<and> list_all isIdChar v \<longrightarrow>
      (\<forall>scheme \<in> {[], str ''http://'', str ''https://''}.
       \<forall>www \<in> {[], str ''www.''}.
       \<forall>base \<in> {str ''youtu.be/'', str ''youtube.com/watch?v='',
                   str ''youtube.com/embed/'', str ''youtube.com/shorts/''}.
         extractVideoId (scheme @ www @ base @ v) = Some v) \<and>
      extractVideoId v = Some v) \<and>
   (length s \<noteq> 11 \<and> \<not> urlShaped s \<longrightarrow> extractVideoId s = None)"
  using extractVideoId_url[of v] extractVideoId_idchars[of v] extractVideoId_no_shape[of s]
  by simp

text \<open>The theorem at the identifier \<open>dQw4w9WgXcQ\<close> and at the strings \<open>short\<close> and
  \<open>waytoolongtobeavalidid\<close>.\<close>

lemma urlShaped_slash: "urlShaped s \<Longrightarrow> 47 \<in> set s"
  by (auto simp: urlShaped_def str_def)

theorem extractVideoId_shapes_witness:
  "length (str ''dQw4w9WgXcQ'') = 11 \<and> list_all isIdChar (str ''dQw4w9WgXcQ'') \<and>
   extractVideoId (str ''https://'' @ str ''www.'' @ str ''youtube.com/watch?v='' @ str ''dQw4w9WgXcQ'')
     = Some (str ''dQw4w9WgXcQ'') \<and>
   extractVideoId (str ''https://'' @ [] @ str ''youtu.be/'' @ str ''dQw4w9WgXcQ'')
     = Some (str ''dQw4w9WgXcQ'') \<and>
   extractVideoId ([] @ str ''www.'' @ str ''youtube.com/embed/'' @ str ''dQw4w9WgXcQ'')
     = Some (str ''dQw4w9WgXcQ'') \<and>
   extractVideoId (str ''http://'' @ [] @ str ''youtube.com/shorts/'' @ str ''dQw4w9WgXcQ'')
     = Some (str ''dQw4w9WgXcQ'') \<and>
   extractVideoId (str ''dQw4w9WgXcQ'') = Some (str ''dQw4w9WgXcQ'') \<and>
   length (str ''short'') \<noteq> 11 \<and> \<not> urlShaped (str ''short'') \<and>
   extractVideoId (str ''short'') = None"
proof -
  have v: "length (str ''dQw4w9WgXcQ'') = 11 \<and> list_all isIdChar (str ''dQw4w9WgXcQ'')"
    by (simp add: str_def isIdChar_def)
  have s: "length (str ''short'') \<noteq> 11 \<and> \<not> urlShaped (str ''short'')"
    using urlShaped_slash[of "str ''short''"] by (auto simp: str_def)
  from extractVideoId_shapes[of "str ''dQw4w9WgXcQ''" "str ''short''"] v s
  show ?thesis by simp
qed

section \<open>parseTranscriptXml: the tag-per-line dialect\<close>

text \<open>
  Claim C3 says that the first dialect matches a \<open>text\<close> element whether or not it has
  attributes, and that one such element with a caption keeps the parser from the
  second dialect. The regular expression of the first loop requires \<open>start="\<dots>"\<close>
  directly after the tag name; only \<open>dur\<close> is optional. An element without attributes
  is not matched: alone it gives no segment, and next to a paragraph of the second
  dialect the paragraph is what the parser returns.
\<close>

theorem text_without_start_not_matched:
  \<open>parseTranscriptXml (str ''<text>Hello</text>'') = Returns [] \<and>
   parseTranscriptXml (str ''<text>Hi</text><p t="0"><s>x</s></p>'') =
     Returns [\<lparr>seg_text = str ''x'', start = Fin 0, duration = Fin 0\<rparr>]\<close>
  by (simp add: ev_xml2)

text \<open>
  Claim C3, amended. The first dialect matches the \<open>text\<close> elements that carry a
  \<open>start\<close> attribute directly after the tag name; the \<open>dur\<close> attribute is optional,
  and other attributes may follow. For every document made of such elements, each
  after any text without \<open><text\<close> and followed by any text without \<open><text\<close>
  (paragraphs of the second dialect included): when at least one element has a
  caption that is not blank, the result is exactly the segments of the elements with
  such a caption, in order, with the caption as text and the attribute values as start
  and duration, and the second dialect has no part in it; when all captions are
  blank, the result is that of the second dialect. A text in which no tag name
  \<open><text\<close> is followed by white space and \<open>start="\<close> has no element of the first
  dialect: its result is that of the second dialect.
\<close>

theorem parseTranscriptXml_text_dialect:
  \<open>((\<forall>(j, e) \<in> set es. noTextTag j \<and> textElementOk e) \<and> noTextTag tail \<longrightarrow>
      parseTranscriptXml (textDocument es @ tail) =
        (if filter captioned (map snd es) \<noteq> []
         then Returns (map textSegment (filter captioned (map snd es)))
         else srv3Loop (textDocument es @ tail))) \<and>
   (\<not> leadingAttr (str ''<text'') (str ''start="'') xml \<longrightarrow> parseTranscriptXml xml = srv3Loop xml)\<close>
proof (intro conjI impI)
  assume "(\<forall>(j, e) \<in> set es. noTextTag j \<and> textElementOk e) \<and> noTextTag tail"
  then have s1: "srv1Loop (textDocument es @ tail) = Returns (map textSegment (filter captioned (map snd es)))"
    by (intro srv1Loop_document) simp_all
  define kept where "kept = filter captioned (map snd es)"
  have "parseTranscriptXml (textDocument es @ tail) =
        (if kept \<noteq> [] then Returns (map textSegment kept) else srv3Loop (textDocument es @ tail))"
    unfolding parseTranscriptXml_def s1 kept_def[symmetric] by simp
  then show "parseTranscriptXml (textDocument es @ tail) =
        (if filter captioned (map snd es) \<noteq> []
         then Returns (map textSegment (filter captioned (map snd es)))
         else srv3Loop (textDocument es @ tail))"
    unfolding kept_def .
next
  assume \<open>\<not> leadingAttr (str ''<text'') (str ''start="'') xml\<close>
  then have "srv1Loop xml = Returns []" by (rule srv1Loop_no_start)
  then show "parseTranscriptXml xml = srv3Loop xml" by (simp add: parseTranscriptXml_def)
qed

text \<open>The theorem at a document of three elements, the second with another attribute
  and no \<open>dur\<close>, the third with a blank caption, followed by a paragraph of the second
  dialect; and at a text whose \<open>text\<close> element has no \<open>start\<close> attribute.\<close>

theorem parseTranscriptXml_text_dialect_witness:
  \<open>parseTranscriptXml
     (str ''<transcript><text start="0" dur="5">Hello world</text> <text  start="5" lang="en">Second</text><text start="7">  </text></transcript><p t="0"><s>x</s></p>'') =
   Returns [\<lparr>seg_text = str ''Hello world'', start = Fin 0, duration = Fin 5\<rparr>,
            \<lparr>seg_text = str ''Second'', start = Fin 5, duration = Fin 0\<rparr>] \<and>
   parseTranscriptXml (str ''<text dur="5">Hi</text><p t="2000"><s>y</s></p>'') =
   Returns [\<lparr>seg_text = str ''y'', start = Fin 2, duration = Fin 0\<rparr>]\<close>
proof -
  let ?es = \<open>[(str ''<transcript>'', (str '' '', str ''0'', Some (str '' '', str ''5''), []), str ''Hello world''),
              (str '' '', (str ''  '', str ''5'', None, str '' lang="en"''), str ''Second''),
              ([], (str '' '', str ''7'', None, []), str ''  '')]\<close>
  let ?tail = \<open>str ''</transcript><p t="0"><s>x</s></p>''\<close>
  let ?xml = \<open>str ''<text dur="5">Hi</text><p t="2000"><s>y</s></p>''\<close>
  have ok: "(\<forall>(j, e) \<in> set ?es. noTextTag j \<and> textElementOk e) \<and> noTextTag ?tail"
    by (simp add: noTextTag_def textElementOk_def tagOk_def blankRun_def sublist_code str_def isWhiteSpace_def)
  have doc: \<open>textDocument ?es @ ?tail =
     str ''<transcript><text start="0" dur="5">Hello world</text> <text  start="5" lang="en">Second</text><text start="7">  </text></transcript><p t="0"><s>x</s></p>''\<close>
    by (simp add: textDocument_def textElement_def openingTag_def str_def)
  have kept: "filter captioned (map snd ?es) =
      [((str '' '', str ''0'', Some (str '' '', str ''5''), []), str ''Hello world''),
       ((str ''  '', str ''5'', None, str '' lang=\"en\"''), str ''Second'')]"
    by (simp add: captioned_def trim_def str_def isWhiteSpace_def)
  have segs: "map textSegment
      [((str '' '', str ''0'', Some (str '' '', str ''5''), []), str ''Hello world''),
       ((str ''  '', str ''5'', None, str '' lang=\"en\"''), str ''Second'')] =
     [\<lparr>seg_text = str ''Hello world'', start = Fin 0, duration = Fin 5\<rparr>,
      \<lparr>seg_text = str ''Second'', start = Fin 5, duration = Fin 0\<rparr>]"
    by (simp add: textSegment_def ev_num str_def)
  have "parseTranscriptXml (textDocument ?es @ ?tail) =
        (if filter captioned (map snd ?es) \<noteq> []
         then Returns (map textSegment (filter captioned (map snd ?es)))
         else srv3Loop (textDocument ?es @ ?tail))"
    using parseTranscriptXml_text_dialect[of ?es ?tail ?xml] ok by blast
  then have one: "parseTranscriptXml (textDocument ?es @ ?tail) =
     Returns [\<lparr>seg_text = str ''Hello world'', start = Fin 0, duration = Fin 5\<rparr>,
              \<lparr>seg_text = str ''Second'', start = Fin 5, duration = Fin 0\<rparr>]"
    unfolding kept segs by simp
  have "\<not> sublist (str ''start=\"'') ?xml" by (simp add: sublist_code str_def)
  then have \<open>\<not> leadingAttr (str ''<text'') (str ''start="'') ?xml\<close>
    using leadingAttr_sublist by blast
  then have "parseTranscriptXml ?xml = srv3Loop ?xml"
    using parseTranscriptXml_text_dialect[of ?es ?tail ?xml] by blast
  also have "\<dots> = Returns [\<lparr>seg_text = str ''y'', start = Fin 2, duration = Fin 0\<rparr>]"
    by (simp add: ev_xml2)
  finally show ?thesis using one unfolding doc by simp
qed

section \<open>parseTranscriptXml: the nested-paragraph dialect\<close>

text \<open>
  Claim C7 says that a paragraph falls back to its markup-stripped content when it
  has no nested word element, and that otherwise its text is the texts of the word
  elements joined. The parser keeps only the word texts that are not empty and falls
  back whenever none is left: a paragraph whose only word element is empty, next to
  other text, gives that other text, where the claim gives no segment.
\<close>

theorem empty_word_element_falls_back:
  \<open>parseTranscriptXml (str ''<p t="0"><s></s>hi</p>'') =
     Returns [\<lparr>seg_text = str ''hi'', start = Fin 0, duration = Fin 0\<rparr>]\<close>
  by (simp add: ev_xml2)

text \<open>
  Claim C7, amended. For every document made of paragraphs (a \<open>p\<close> element with a \<open>t\<close>
  attribute directly after the tag name, optionally a \<open>d\<close> attribute and others, and
  a content of word elements and other text), each after any text without \<open><p\<close>, in
  which the first dialect finds nothing: the result has one segment for every
  paragraph whose text is not empty, in order. The text of a paragraph is the words
  of its word elements joined with nothing between them; when that is empty (no
  word element, or only empty ones) it is the content with the markup stripped,
  trimmed. The \<open>t\<close> and \<open>d\<close> attributes, in milliseconds, become the start and the
  duration in seconds. \<open><p t="0" d="5000"><s>one </s><s>two</s></p>\<close> gives one segment
  with text \<open>one two\<close> and start 0.
\<close>

theorem parseTranscriptXml_paragraph_dialect:
  \<open>((\<forall>(j, p) \<in> set ps. noParagraphTag j \<and> paragraphOk p) \<and> noParagraphTag tail \<and>
    noTextTag (paragraphDocument ps @ tail) \<longrightarrow>
      parseTranscriptXml (paragraphDocument ps @ tail) =
        Returns (List.map_filter paragraphSegment (map snd ps))) \<and>
   parseTranscriptXml (str ''<p t="0" d="5000"><s>one </s><s>two</s></p>'') =
     Returns [\<lparr>seg_text = str ''one two'', start = Fin 0, duration = Fin 5\<rparr>]\<close>
proof (intro conjI impI)
  assume a: "(\<forall>(j, p) \<in> set ps. noParagraphTag j \<and> paragraphOk p) \<and> noParagraphTag tail \<and>
    noTextTag (paragraphDocument ps @ tail)"
  then have "srv1Loop (paragraphDocument ps @ tail) = Returns []" by (intro srv1Loop_no_text) simp
  moreover from a have "srv3Loop (paragraphDocument ps @ tail) =
      Returns (List.map_filter paragraphSegment (map snd ps))"
    by (intro srv3Loop_document) simp_all
  ultimately show "parseTranscriptXml (paragraphDocument ps @ tail) =
        Returns (List.map_filter paragraphSegment (map snd ps))"
    by (simp add: parseTranscriptXml_def)
next
  show \<open>parseTranscriptXml (str ''<p t="0" d="5000"><s>one </s><s>two</s></p>'') =
     Returns [\<lparr>seg_text = str ''one two'', start = Fin 0, duration = Fin 5\<rparr>]\<close>
    by (simp add: ev_xml2)
qed

text \<open>The theorem at a document of three paragraphs: one with three word elements, one
  of them empty; one with an empty word element and other text; and a blank one.\<close>

theorem parseTranscriptXml_paragraph_dialect_witness:
  \<open>parseTranscriptXml
     (str ''<body><p t="1500" d="3000" w="1"><s ac="0">a </s><s></s> <s>b</s></p> <p t="5000"><s></s>hi <b>there</b></p><p t="9000">  </p></body>'') =
   Returns [\<lparr>seg_text = str ''a b'', start = Fin (3 / 2), duration = Fin 3\<rparr>,
            \<lparr>seg_text = str ''hi there'', start = Fin 5, duration = Fin 0\<rparr>]\<close>
proof -
  let ?p1 = \<open>((str '' '', str ''1500'', Some (str '' '', str ''3000''), str '' w="1"''),
              [([], str '' ac="0"'', str ''a ''), ([], [], []), (str '' '', [], str ''b'')], [])\<close>
  let ?p2 = \<open>((str '' '', str ''5000'', None, []), [([], [], [])], str ''hi <b>there</b>'')\<close>
  let ?p3 = \<open>((str '' '', str ''9000'', None, []), [], str ''  '')\<close>
  let ?ps = "[(str ''<body>'', ?p1), (str '' '', ?p2), ([], ?p3)]"
  let ?tail = "str ''</body>''"
  have doc: \<open>paragraphDocument ?ps @ ?tail =
     str ''<body><p t="1500" d="3000" w="1"><s ac="0">a </s><s></s> <s>b</s></p> <p t="5000"><s></s>hi <b>there</b></p><p t="9000">  </p></body>''\<close>
    by (simp add: paragraphDocument_def paragraphElement_def openingTag_def wordsInner_def wordElement_def str_def)
  have ok: "(\<forall>(j, p) \<in> set ?ps. noParagraphTag j \<and> paragraphOk p) \<and> noParagraphTag ?tail \<and>
      noTextTag (paragraphDocument ?ps @ ?tail)"
    unfolding doc
    by (simp add: noParagraphTag_def noTextTag_def paragraphOk_def tagOk_def blankRun_def wordsInner_def
        wordElement_def sublist_code str_def isWhiteSpace_def)
  have t1: "paragraphText [([], str '' ac=\"0\"'', str ''a ''), ([], [], []), (str '' '', [], str ''b'')] [] = str ''a b''"
    by (simp add: paragraphText_def str_def)
  have t2: "paragraphText [([], [], [])] (str ''hi <b>there</b>'') = str ''hi there''"
    by (simp add: paragraphText_def wordsInner_def wordElement_def ev_xml2)
  have t3: "paragraphText [] (str ''  '') = []"
    by (simp add: paragraphText_def wordsInner_def ev_xml2)
  have segs: "List.map_filter paragraphSegment (map snd ?ps) =
     [\<lparr>seg_text = str ''a b'', start = Fin (3 / 2), duration = Fin 3\<rparr>,
      \<lparr>seg_text = str ''hi there'', start = Fin 5, duration = Fin 0\<rparr>]"
    by (simp add: List.map_filter_simps paragraphSegment_def t1 t2 t3 msToSeconds_def) (simp add: ev_num str_def)
  have "parseTranscriptXml (paragraphDocument ?ps @ ?tail) = Returns (List.map_filter paragraphSegment (map snd ?ps))"
    using parseTranscriptXml_paragraph_dialect[of ?ps ?tail] ok by blast
  then show ?thesis unfolding doc segs .
qed

section \<open>The plain-subtitle fallback\<close>

text \<open>
  Claim C2 says that the fallback path decodes the HTML entities of each line before
  it removes repeats. The path does not decode at all (the entities are decoded
  once, when the segments are joined): a line keeps its entities, and two lines that
  differ only in how they write an ampersand are both emitted.
\<close>

theorem vtt_entities_not_decoded:
  "parseSubtitleResponse
     (str ''WEBVTT'' @ [10, 10] @ str ''Tom &amp; Jerry'' @ [10] @ str ''Tom &#38; Jerry'') =
   Returns [\<lparr>seg_text = str ''Tom &amp; Jerry'', start = Fin 0, duration = Fin 0\<rparr>,
            \<lparr>seg_text = str ''Tom &#38; Jerry'', start = Fin 0, duration = Fin 0\<rparr>]"
proof -
  let ?p = "str ''WEBVTT'' @ [10, 10] @ str ''Tom &amp; Jerry'' @ [10] @ str ''Tom &#38; Jerry''"
  have v: "vttSegments ?p =
      [\<lparr>seg_text = str ''Tom &amp; Jerry'', start = Fin 0, duration = Fin 0\<rparr>,
       \<lparr>seg_text = str ''Tom &#38; Jerry'', start = Fin 0, duration = Fin 0\<rparr>]"
    by (simp add: ev_vtt ev_xml2)
  have x: "parseTranscriptXml ?p = Returns []" by (simp add: ev_xml2)
  have i: "str_includes ?p (str ''WEBVTT'')" by (simp add: str_includes_def sublist_code str_def)
  have t: "trim ?p \<noteq> []" by (simp add: trim_def str_def isWhiteSpace_def)
  have n: "vttSegments ?p \<noteq> []" unfolding v by simp
  from parseSubtitleResponse_vtt[OF t x i n] show ?thesis unfolding v .
qed

text \<open>
  Claim C2, amended. For every payload the fallback path splits the payload into
  lines, leaves out the structural lines (blank, the format header, \<open>Kind:\<close> and
  \<open>Language:\<close> headers, lines that start with \<open>NOTE\<close>, cue indices, cue timings),
  strips the markup from each remaining line and trims it, leaves out what is empty
  then, decodes no entity, keeps of equal texts the first one only (whatever lies
  between them), and gives every segment start 0 and duration 0. It is the result
  of the yt-dlp strategy for a payload that is not blank, gives no segment as XML,
  contains \<open>WEBVTT\<close> and has a caption line.
\<close>

theorem vttSegments_lines:
  "vttSegments payload =
     map (\<lambda>t. \<lparr>seg_text = t, start = Fin 0, duration = Fin 0\<rparr>)
       (firstOccurrences (vttCandidates payload)) \<and>
   (trim payload \<noteq> [] \<and> parseTranscriptXml payload = Returns [] \<and>
    sublist (str ''WEBVTT'') payload \<and> vttSegments payload \<noteq> [] \<longrightarrow>
      parseSubtitleResponse payload = Returns (vttSegments payload))"
  using vttSegments_eq[of payload] parseSubtitleResponse_vtt[of payload]
  by (simp add: str_includes_def)

text \<open>The theorem at a payload with headers, a cue, markup, a repeat and a note.\<close>

theorem vttSegments_lines_witness:
  "parseSubtitleResponse
     (str ''WEBVTT'' @ [10] @ str ''Kind: captions'' @ [10] @ str ''Language: en'' @ [10, 10] @
      str ''1'' @ [10] @ str ''00:00:00.000 --> 00:00:05.000'' @ [10] @
      str ''<c>Hello</c> world'' @ [10] @ str ''Hello world'' @ [10] @
      str ''NOTE x'' @ [10] @ str ''Second line'') =
   Returns [\<lparr>seg_text = str ''Hello world'', start = Fin 0, duration = Fin 0\<rparr>,
            \<lparr>seg_text = str ''Second line'', start = Fin 0, duration = Fin 0\<rparr>]"
proof -
  let ?p = "str ''WEBVTT'' @ [10] @ str ''Kind: captions'' @ [10] @ str ''Language: en'' @ [10, 10] @
      str ''1'' @ [10] @ str ''00:00:00.000 --> 00:00:05.000'' @ [10] @
      str ''<c>Hello</c> world'' @ [10] @ str ''Hello world'' @ [10] @
      str ''NOTE x'' @ [10] @ str ''Second line''"
  have c: "vttCandidates ?p = [str ''Hello world'', str ''Hello world'', str ''Second line'']"
    by (simp add: vttCandidates_def vttStructural_def sublist_code isDigit_def ev_xml2)
  have f: "firstOccurrences [str ''Hello world'', str ''Hello world'', str ''Second line''] =
      [str ''Hello world'', str ''Second line'']"
    by (simp add: firstOccurrences_def str_def)
  have x: "parseTranscriptXml ?p = Returns []" by (simp add: ev_xml2)
  have i: "sublist (str ''WEBVTT'') ?p" by (simp add: sublist_code str_def)
  have t: "trim ?p \<noteq> []" by (simp add: trim_def str_def isWhiteSpace_def)
  from vttSegments_lines[of ?p]
  have v: "vttSegments ?p =
      [\<lparr>seg_text = str ''Hello world'', start = Fin 0, duration = Fin 0\<rparr>,
       \<lparr>seg_text = str ''Second line'', start = Fin 0, duration = Fin 0\<rparr>]"
    unfolding c f by simp
  then have n: "vttSegments ?p \<noteq> []" by simp
  from vttSegments_lines[of ?p] x i t n
  have "parseSubtitleResponse ?p = Returns (vttSegments ?p)" by blast
  then show ?thesis unfolding v .
qed

section \<open>formatSegments\<close>




end
